theory Spec2Isabelle
  imports Complex_Main
begin

section \<open>Realtime player statistics service: backend/main.py\<close>

text \<open>
  The service keeps a table of players, a registry of open websocket channels
  (\<^verbatim>\<open>ConnectionManager.active_connections\<close>) and answers HTTP requests that read or
  change the table. Every change is broadcast to the registered channels.

  The code is a set of coroutines on one asyncio event loop. A coroutine runs until it
  awaits something that is not ready; then another coroutine runs. The embedding has two
  parts.
  \<^item> One pass of \<^verbatim>\<open>ConnectionManager.broadcast\<close> from the moment it holds the lock, as a
    function on the state (\<open>send_all\<close>, \<open>remove_failed\<close>, \<open>broadcast\<close>). What each
    \<^verbatim>\<open>send_json\<close> does (return, raise, never complete) is answered by an environment
    function that sees everything done so far.
  \<^item> The service as a whole, as a transition system (\<open>step\<close>, \<open>exec\<close>). Every request is a
    task; a step starts a task or resumes one, and runs it to the next point where the
    code can give way: an await of the websocket library (\<^verbatim>\<open>accept\<close>, \<^verbatim>\<open>send_json\<close>,
    \<^verbatim>\<open>receive_text\<close>) or a wait for \<^verbatim>\<open>manager.lock\<close>. The schedule decides which task goes
    on and how its pending call of the library ended; a call that never completes is
    never resumed. Nothing is assumed about the order in which pending calls complete.
  What the code does not decide is input of the model: the outcomes of the library calls,
  the schedule, and the identifier \<^verbatim>\<open>uuid.uuid4()\<close> gives a new player.
\<close>

subsection \<open>Values\<close>

text \<open>
  A websocket object is known by its identity only. In the transition system the
  websocket of an endpoint is the number of its task: the framework creates one websocket
  object for each connection and calls the endpoint on it once.
\<close>

type_synonym WebSocket = nat

text \<open>JSON values: request bodies (\<^verbatim>\<open>Dict[str, Any]\<close>) and the messages sent to channels.\<close>

datatype json =
    JNull
  | JBool bool
  | JInt int
  | JFloat real
  | JStr string
  | JList "json list"
  | JObj "(string \<times> json) list"

text \<open>
  The exceptions the code meets. \<open>CancelledError\<close> derives from \<^verbatim>\<open>BaseException\<close> only
  (Python 3.8 and later); every other one derives from \<^verbatim>\<open>Exception\<close>.
\<close>

datatype exn =
    WebSocketDisconnect
  | RuntimeError
  | OSError
  | TimeoutError
  | KeyError string
  | TypeError
  | OverflowError
  | HTTPException nat string
  | IntegrityError
  | InvalidRequestError
  | CancelledError

fun is_Exception :: "exn \<Rightarrow> bool" where
  "is_Exception CancelledError = False"
| "is_Exception _ = True"

text \<open>
  How a call ends: it returns a value, raises, or never resumes (\<open>Stall\<close>: it awaits
  something that does not complete, or waits for the lock). \<open>Unmodelled\<close> marks the one
  place where the result is decided by the database driver in a way this model does not
  follow (see \<open>new_Player\<close>).
\<close>

datatype 'a result = Return 'a | Raise exn | Stall | Unmodelled

subsection \<open>Database models\<close>

record StatsBase =
  matches :: int
  runs_or_goals :: int
  average :: real

record Player =
  id' :: string
  name :: string
  sport :: string
  team :: string
  age :: int
  matches :: int
  runs_or_goals :: int
  average :: real

subsection \<open>The state and its environment\<close>

datatype io = Accept WebSocket | SendJson WebSocket json

datatype outcome = Done | Raised exn | Stalled

text \<open>
  The log of what the service did, in order: a call of the websocket library when it is
  made (\<open>Call\<close>) and when it ends, with its outcome (\<open>IO\<close>); each commit with the table it
  leaves; each call of \<open>broadcast\<close> with its message.
\<close>

datatype event = Call io | IO io outcome | Commit "Player list" | Broadcast json

type_synonym env = "event list \<Rightarrow> io \<Rightarrow> outcome"

record state =
  players :: "Player list"
  active_connections :: "WebSocket list"
  trace :: "event list"

definition perform :: "env \<Rightarrow> state \<Rightarrow> io \<Rightarrow> outcome \<times> state" where
  "perform orc s a = (let r = orc (trace s) a in (r, s\<lparr>trace := trace s @ [IO a r]\<rparr>))"

fun bind_r :: "'a result \<times> state \<Rightarrow> ('a \<Rightarrow> state \<Rightarrow> 'b result \<times> state) \<Rightarrow> 'b result \<times> state" where
  "bind_r (Return v, s) f = f v s"
| "bind_r (Raise e, s) f = (Raise e, s)"
| "bind_r (Stall, s) f = (Stall, s)"
| "bind_r (Unmodelled, s) f = (Unmodelled, s)"

subsection \<open>One pass of broadcast\<close>

text \<open>
  The first loop of \<open>broadcast\<close>, over the copy \<^verbatim>\<open>list(self.active_connections)\<close>: \<open>conns\<close> is
  what is left of the copy, \<open>to_remove\<close> the failed channels so far. \<^verbatim>\<open>except Exception\<close>
  catches what derives from \<^verbatim>\<open>Exception\<close>; anything else leaves the loop and the function.
\<close>

fun send_all :: "env \<Rightarrow> json \<Rightarrow> WebSocket list \<Rightarrow> WebSocket list \<Rightarrow> state
    \<Rightarrow> WebSocket list result \<times> state" where
  "send_all orc message [] to_remove s = (Return to_remove, s)"
| "send_all orc message (conn # conns) to_remove s =
     (case perform orc s (SendJson conn message) of
        (Done, s1) \<Rightarrow> send_all orc message conns to_remove s1
      | (Raised e, s1) \<Rightarrow>
          if is_Exception e then send_all orc message conns (to_remove @ [conn]) s1
          else (Raise e, s1)
      | (Stalled, s1) \<Rightarrow> (Stall, s1))"

text \<open>The second loop: \<^verbatim>\<open>for r in to_remove: if r in ...: ....remove(r)\<close>.\<close>

fun remove_failed :: "WebSocket list \<Rightarrow> WebSocket list \<Rightarrow> WebSocket list" where
  "remove_failed [] conns = conns"
| "remove_failed (r # rs) conns =
     remove_failed rs (if r \<in> set conns then remove1 r conns else conns)"

definition broadcast :: "env \<Rightarrow> state \<Rightarrow> json \<Rightarrow> unit result \<times> state" where
  "broadcast orc s message =
     (let s0 = s\<lparr>trace := trace s @ [Broadcast message]\<rparr> in
      bind_r (send_all orc message (active_connections s0) [] s0)
        (\<lambda>to_remove s1.
           (Return (), s1\<lparr>active_connections := remove_failed to_remove (active_connections s1)\<rparr>)))"

subsection \<open>Helper functions\<close>

text \<open>\<^verbatim>\<open>session.get(Player, player_id)\<close>: the row with that primary key, if there is one.\<close>

definition session_get :: "Player list \<Rightarrow> string \<Rightarrow> Player option" where
  "session_get rows player_id = find (\<lambda>q. id' q = player_id) rows"

text \<open>\<^verbatim>\<open>session.refresh(p)\<close> reads the row of \<open>p\<close> again; it raises when the row is gone.\<close>

definition refresh :: "Player list \<Rightarrow> Player \<Rightarrow> exn + Player" where
  "refresh rows p =
     (case session_get rows (id' p) of
        None \<Rightarrow> Inl InvalidRequestError
      | Some q \<Rightarrow> Inr q)"

definition player_to_dict :: "Player \<Rightarrow> json" where
  "player_to_dict p =
     JObj [(''id'', JStr (id' p)),
           (''name'', JStr (name p)),
           (''sport'', JStr (sport p)),
           (''team'', JStr (team p)),
           (''age'', JInt (age p)),
           (''stats'', JObj [(''matches'', JInt (matches p)),
                             (''runs_or_goals'', JInt (runs_or_goals p)),
                             (''average'', JFloat (average p))])]"

text \<open>
  Python's \<^verbatim>\<open>x[k]\<close> with a string key: \<^verbatim>\<open>KeyError\<close> on a dict without the key,
  \<^verbatim>\<open>TypeError\<close> on a value that is no dict. \<^verbatim>\<open>d.get(k, default)\<close> never raises.
\<close>

fun getitem :: "json \<Rightarrow> string \<Rightarrow> exn + json" where
  "getitem (JObj d) k = (case map_of d k of None \<Rightarrow> Inl (KeyError k) | Some v \<Rightarrow> Inr v)"
| "getitem _ k = Inl TypeError"

definition dict_get :: "(string \<times> json) list \<Rightarrow> string \<Rightarrow> json \<Rightarrow> json" where
  "dict_get d k dflt = (case map_of d k of None \<Rightarrow> dflt | Some v \<Rightarrow> v)"

fun bind_e :: "exn + 'a \<Rightarrow> ('a \<Rightarrow> exn + 'b) \<Rightarrow> exn + 'b" where
  "bind_e (Inl e) f = Inl e"
| "bind_e (Inr v) f = f v"

definition init_message :: "Player list \<Rightarrow> json" where
  "init_message all_players =
     JObj [(''type'', JStr ''init''), (''players'', JList (map player_to_dict all_players))]"

subsection \<open>The service: tasks, lock and steps\<close>

type_synonym tid = nat

text \<open>
  Where a task stands: at an await of the library, waiting for the lock, or finished.
  \<^item> \<open>AwaitAccept\<close>: the endpoint, in \<^verbatim>\<open>connect\<close>, awaits \<^verbatim>\<open>websocket.accept()\<close>.
  \<^item> \<open>WaitConnect\<close>: the endpoint, in \<^verbatim>\<open>connect\<close>, waits for the lock.
  \<^item> \<open>AwaitInit m\<close>: the endpoint awaits \<^verbatim>\<open>send_json\<close> of the init message \<open>m\<close>.
  \<^item> \<open>AwaitReceive\<close>: the endpoint awaits \<^verbatim>\<open>receive_text()\<close>.
  \<^item> \<open>WaitDisconnect\<close>: the endpoint, in \<^verbatim>\<open>disconnect\<close>, waits for the lock.
  \<^item> \<open>WaitBroadcast m ret\<close>: a route, in \<^verbatim>\<open>broadcast(m)\<close>, waits for the lock; it will
    return \<open>ret\<close>.
  \<^item> \<open>AwaitSend m ret conn conns to_remove\<close>: a route, in the loop of \<^verbatim>\<open>broadcast(m)\<close>,
    awaits \<^verbatim>\<open>conn.send_json(m)\<close>; \<open>conns\<close> is the rest of the copy of the registry.
  \<^item> \<open>Finished r\<close>: the coroutine has returned or raised.
\<close>

datatype pc =
    AwaitAccept
  | WaitConnect
  | AwaitInit json
  | AwaitReceive
  | WaitDisconnect
  | WaitBroadcast json json
  | AwaitSend json json WebSocket "WebSocket list" "WebSocket list"
  | Finished "json result"

text \<open>
  The service: the state above, the holder of \<^verbatim>\<open>manager.lock\<close> (asyncio's lock records
  only that it is held; the holder is kept for the proofs), and the tasks, a task's number
  being its place in the list.
\<close>

record system = state +
  lock :: "tid option"
  tasks :: "pc list"

definition initial :: "Player list \<Rightarrow> system" where
  "initial rows = \<lparr>players = rows, active_connections = [], trace = [], lock = None, tasks = []\<rparr>"

definition logged :: "system \<Rightarrow> event \<Rightarrow> system" where
  "logged s ev = s\<lparr>trace := trace s @ [ev]\<rparr>"

subsubsection \<open>Database session\<close>

text \<open>
  \<^verbatim>\<open>session.commit()\<close>, to leave the table \<open>rows\<close>, having bound the integers \<open>written\<close>. The
  driver refuses a Python integer outside SQLite's 64-bit INTEGER with \<^verbatim>\<open>OverflowError\<close>;
  the table refuses a second row under a primary key. When the commit raises, the
  \<^verbatim>\<open>with\<close> block closes the session and the table is as before.
\<close>

definition fits_INTEGER :: "int \<Rightarrow> bool" where
  "fits_INTEGER i = (- (2 ^ 63) \<le> i \<and> i < 2 ^ 63)"

definition commit :: "system \<Rightarrow> Player list \<Rightarrow> int list \<Rightarrow> exn + system" where
  "commit s rows written =
     (if \<not> list_all fits_INTEGER written then Inl OverflowError
      else if distinct (map id' (players s)) \<and> \<not> distinct (map id' rows) then Inl IntegrityError
      else Inr (s\<lparr>players := rows, trace := trace s @ [Commit rows]\<rparr>))"

subsubsection \<open>WebSocket manager\<close>

text \<open>
  \<open>connect\<close> from its \<^verbatim>\<open>async with self.lock\<close> on (the await of \<^verbatim>\<open>accept\<close> before it is a
  step of its own, see \<open>resume\<close>), and \<open>disconnect\<close>. A coroutine that finds the lock held
  waits (\<open>Stall\<close>) and is tried again when it is resumed. Neither awaits anything while it
  holds the lock, so the lock is free again when they return.
\<close>

definition connect :: "system \<Rightarrow> WebSocket \<Rightarrow> unit result \<times> system" where
  "connect s websocket =
     (if lock s \<noteq> None then (Stall, s)
      else (Return (), s\<lparr>active_connections := active_connections s @ [websocket]\<rparr>))"

definition disconnect :: "system \<Rightarrow> WebSocket \<Rightarrow> unit result \<times> system" where
  "disconnect s websocket =
     (if lock s \<noteq> None then (Stall, s)
      else if websocket \<in> set (active_connections s)
      then (Return (), s\<lparr>active_connections := remove1 websocket (active_connections s)\<rparr>)
      else (Return (), s))"

text \<open>
  \<open>broadcast\<close> as task \<open>t\<close> runs it, in the pieces between its awaits. \<open>send_next\<close> is the
  head of the first loop: with a connection left it calls \<^verbatim>\<open>send_json\<close> and awaits; with
  none left it runs the second loop, releases the lock and the route returns \<open>ret\<close>.
  \<open>after_send\<close> is the \<^verbatim>\<open>try\<close> around the await, once the call has ended.
  \<open>broadcast_locked\<close> is the function from the moment it holds the lock, \<open>call_broadcast\<close>
  the call of it.
\<close>

fun send_next :: "system \<Rightarrow> json \<Rightarrow> json \<Rightarrow> WebSocket list \<Rightarrow> WebSocket list \<Rightarrow> pc \<times> system" where
  "send_next s message ret [] to_remove =
     (Finished (Return ret),
      s\<lparr>active_connections := remove_failed to_remove (active_connections s), lock := None\<rparr>)"
| "send_next s message ret (conn # conns) to_remove =
     (AwaitSend message ret conn conns to_remove, logged s (Call (SendJson conn message)))"

definition after_send ::
  "system \<Rightarrow> json \<Rightarrow> json \<Rightarrow> WebSocket \<Rightarrow> WebSocket list \<Rightarrow> WebSocket list \<Rightarrow> outcome
     \<Rightarrow> pc \<times> system" where
  "after_send s message ret conn conns to_remove r =
     (case r of
        Done \<Rightarrow> send_next (logged s (IO (SendJson conn message) Done)) message ret conns to_remove
      | Raised e \<Rightarrow>
          if is_Exception e
          then send_next (logged s (IO (SendJson conn message) (Raised e))) message ret conns
                 (to_remove @ [conn])
          else (Finished (Raise e), (logged s (IO (SendJson conn message) (Raised e)))\<lparr>lock := None\<rparr>)
      | Stalled \<Rightarrow> (AwaitSend message ret conn conns to_remove, s))"

definition broadcast_locked :: "system \<Rightarrow> tid \<Rightarrow> json \<Rightarrow> json \<Rightarrow> pc \<times> system" where
  "broadcast_locked s t message ret =
     send_next (s\<lparr>lock := Some t\<rparr>) message ret (active_connections s) []"

definition call_broadcast :: "system \<Rightarrow> tid \<Rightarrow> json \<Rightarrow> json \<Rightarrow> pc \<times> system" where
  "call_broadcast s t message ret =
     (let s0 = logged s (Broadcast message) in
      if lock s0 = None then broadcast_locked s0 t message ret
      else (WaitBroadcast message ret, s0))"

subsubsection \<open>Routes\<close>

definition list_players :: "'a state_scheme \<Rightarrow> string option \<Rightarrow> json" where
  "list_players s sport_filter =
     JList (map player_to_dict
       (case sport_filter of
          None \<Rightarrow> players s
        | Some sp \<Rightarrow> if sp = [] then players s else filter (\<lambda>p. sport p = sp) (players s)))"

definition get_player :: "'a state_scheme \<Rightarrow> string \<Rightarrow> json result" where
  "get_player s player_id =
     (case session_get (players s) player_id of
        None \<Rightarrow> Raise (HTTPException 404 ''Player not found'')
      | Some p \<Rightarrow> Return (player_to_dict p))"

text \<open>
  The arguments of \<^verbatim>\<open>Player(...)\<close> in \<open>create_player\<close>, evaluated in the order they are
  written. The first lookup that fails ends the evaluation.
\<close>

definition player_args ::
  "(string \<times> json) list \<Rightarrow> exn + (json \<times> json \<times> json \<times> json \<times> json \<times> json \<times> json)" where
  "player_args data =
     bind_e (getitem (JObj data) ''name'') (\<lambda>v_name.
     bind_e (getitem (JObj data) ''sport'') (\<lambda>v_sport.
     let v_team = dict_get data ''team'' (JStr []);
         v_age = dict_get data ''age'' (JInt 0) in
     bind_e (bind_e (getitem (JObj data) ''stats'') (\<lambda>st. getitem st ''matches'')) (\<lambda>v_matches.
     bind_e (bind_e (getitem (JObj data) ''stats'') (\<lambda>st. getitem st ''runs_or_goals'')) (\<lambda>v_runs.
     bind_e (bind_e (getitem (JObj data) ''stats'') (\<lambda>st. getitem st ''average'')) (\<lambda>v_average.
     Inr (v_name, v_sport, v_team, v_age, v_matches, v_runs, v_average))))))"

text \<open>
  The table model does not validate what it is given; the values go to the driver as they
  are. The model follows a string in a text column, an integer in an integer column, and
  a float or an integer in the float column \<^verbatim>\<open>average\<close>: SQLite stores an integer there as
  the float of the same value, which \<^verbatim>\<open>refresh\<close> reads back (exact up to \<open>2 ^ 53\<close>). With
  the row come the integers the driver has to bind. For any other value (and for an
  integer \<^verbatim>\<open>average\<close> beyond \<open>2 ^ 53\<close> that fits 64 bits, which is rounded) \<open>new_Player\<close>
  is \<open>None\<close> and \<open>create_player\<close> ends \<open>Unmodelled\<close>. A float that is not a number of
  \<open>real\<close> (NaN, infinity) is outside the model.
\<close>

fun as_str :: "json \<Rightarrow> string option" where
  "as_str (JStr x) = Some x"
| "as_str _ = None"

fun as_int :: "json \<Rightarrow> int option" where
  "as_int (JInt i) = Some i"
| "as_int _ = None"

fun as_float :: "json \<Rightarrow> (real \<times> int list) option" where
  "as_float (JFloat x) = Some (x, [])"
| "as_float (JInt i) =
     (if fits_INTEGER i \<and> 2 ^ 53 < \<bar>i\<bar> then None else Some (of_int i, [i]))"
| "as_float _ = None"

definition new_Player ::
  "string \<Rightarrow> json \<times> json \<times> json \<times> json \<times> json \<times> json \<times> json
     \<Rightarrow> (Player \<times> int list) option" where
  "new_Player uid args =
     (case args of (v_name, v_sport, v_team, v_age, v_matches, v_runs, v_average) \<Rightarrow>
        (case (as_str v_name, as_str v_sport, as_str v_team, as_int v_age,
               as_int v_matches, as_int v_runs, as_float v_average) of
           (Some n, Some sp, Some t, Some a, Some m, Some r, Some (av, ints)) \<Rightarrow>
             Some (\<lparr>id' = uid, name = n, sport = sp, team = t, age = a,
                    matches = m, runs_or_goals = r, average = av\<rparr>,
                   [a, m, r] @ ints)
         | _ \<Rightarrow> None))"

text \<open>
  The routes that change the table, each up to the point where it first gives way: the
  work on the session, which awaits nothing, and the call of \<open>broadcast\<close>. \<open>uid\<close> is the
  identifier the default factory draws.
\<close>

definition create_player ::
  "system \<Rightarrow> tid \<Rightarrow> (string \<times> json) list \<Rightarrow> string \<Rightarrow> pc \<times> system" where
  "create_player s t data uid =
     (case player_args data of
        Inl e \<Rightarrow> (Finished (Raise e), s)
      | Inr args \<Rightarrow>
          (case new_Player uid args of
             None \<Rightarrow> (Finished Unmodelled, s)
           | Some (p, written) \<Rightarrow>
               (case commit s (players s @ [p]) written of
                  Inl e \<Rightarrow> (Finished (Raise e), s)
                | Inr s1 \<Rightarrow>
                    (case refresh (players s1) p of
                       Inl e \<Rightarrow> (Finished (Raise e), s1)
                     | Inr p1 \<Rightarrow>
                         call_broadcast s1 t
                           (JObj [(''type'', JStr ''player_created''),
                                  (''player'', player_to_dict p1)])
                           (player_to_dict p1)))))"

definition update_stats ::
  "system \<Rightarrow> tid \<Rightarrow> string \<Rightarrow> StatsBase \<Rightarrow> pc \<times> system" where
  "update_stats s t player_id stats =
     (case session_get (players s) player_id of
        None \<Rightarrow> (Finished (Raise (HTTPException 404 ''Player not found'')), s)
      | Some p0 \<Rightarrow>
          (let p = p0\<lparr>matches := StatsBase.matches stats,
                       runs_or_goals := StatsBase.runs_or_goals stats,
                       average := StatsBase.average stats\<rparr> in
           case commit s (map (\<lambda>q. if id' q = id' p then p else q) (players s))
                  [StatsBase.matches stats, StatsBase.runs_or_goals stats] of
             Inl e \<Rightarrow> (Finished (Raise e), s)
           | Inr s1 \<Rightarrow>
               (case refresh (players s1) p of
                  Inl e \<Rightarrow> (Finished (Raise e), s1)
                | Inr p1 \<Rightarrow>
                    call_broadcast s1 t
                      (JObj [(''type'', JStr ''stats_updated''),
                             (''player'', player_to_dict p1)])
                      (player_to_dict p1))))"

definition delete_player :: "system \<Rightarrow> tid \<Rightarrow> string \<Rightarrow> pc \<times> system" where
  "delete_player s t player_id =
     (case session_get (players s) player_id of
        None \<Rightarrow> (Finished (Raise (HTTPException 404 ''Player not found'')), s)
      | Some p \<Rightarrow>
          (case commit s (filter (\<lambda>q. id' q \<noteq> id' p) (players s)) [] of
             Inl e \<Rightarrow> (Finished (Raise e), s)
           | Inr s1 \<Rightarrow>
               call_broadcast s1 t
                 (JObj [(''type'', JStr ''player_deleted''),
                        (''player_id'', JStr player_id)])
                 (JObj [(''ok'', JBool True)])))"

subsubsection \<open>The websocket endpoint\<close>

text \<open>
  The endpoint in the pieces between its awaits. \<open>websocket_endpoint\<close> is its start: it
  calls \<^verbatim>\<open>manager.connect\<close>, which calls \<^verbatim>\<open>accept\<close>. \<open>endpoint_connect\<close> is \<^verbatim>\<open>connect\<close> from
  the lock on and, when it returns, \<open>endpoint_connected\<close>: the table is read and
  \<^verbatim>\<open>send_json\<close> is called with the init message, with no await from the append to this
  call. \<open>endpoint_disconnect\<close> is the handler of \<^verbatim>\<open>WebSocketDisconnect\<close>.
\<close>

definition websocket_endpoint :: "system \<Rightarrow> WebSocket \<Rightarrow> pc \<times> system" where
  "websocket_endpoint s websocket = (AwaitAccept, logged s (Call (Accept websocket)))"

definition endpoint_connected :: "system \<Rightarrow> WebSocket \<Rightarrow> pc \<times> system" where
  "endpoint_connected s websocket =
     (let all_players = players s;
          m = init_message all_players in
      (AwaitInit m, logged s (Call (SendJson websocket m))))"

definition endpoint_connect :: "system \<Rightarrow> WebSocket \<Rightarrow> pc \<times> system" where
  "endpoint_connect s websocket =
     (case connect s websocket of
        (Return _, s1) \<Rightarrow> endpoint_connected s1 websocket
      | (_, s1) \<Rightarrow> (WaitConnect, s1))"

definition endpoint_disconnect :: "system \<Rightarrow> WebSocket \<Rightarrow> pc \<times> system" where
  "endpoint_disconnect s websocket =
     (case disconnect s websocket of
        (Return _, s1) \<Rightarrow> (Finished (Return JNull), s1)
      | (_, s1) \<Rightarrow> (WaitDisconnect, s1))"

subsubsection \<open>Steps\<close>

text \<open>
  Task \<open>t\<close>, standing at a given point, is resumed; \<open>r\<close> is how its pending call of the
  library ended (\<open>Stalled\<close>: it has not ended; a task that waits for the lock does not read
  \<open>r\<close>). \<^verbatim>\<open>receive_text\<close> returns a text, which the loop drops, or raises; only
  \<^verbatim>\<open>WebSocketDisconnect\<close> is caught. The init message is sent outside the \<^verbatim>\<open>try\<close>.
\<close>

fun resume :: "system \<Rightarrow> tid \<Rightarrow> pc \<Rightarrow> outcome \<Rightarrow> pc \<times> system" where
  "resume s t AwaitAccept r =
     (case r of
        Done \<Rightarrow> endpoint_connect (logged s (IO (Accept t) Done)) t
      | Raised e \<Rightarrow> (Finished (Raise e), logged s (IO (Accept t) (Raised e)))
      | Stalled \<Rightarrow> (AwaitAccept, s))"
| "resume s t WaitConnect r = endpoint_connect s t"
| "resume s t (AwaitInit m) r =
     (case r of
        Done \<Rightarrow> (AwaitReceive, logged s (IO (SendJson t m) Done))
      | Raised e \<Rightarrow> (Finished (Raise e), logged s (IO (SendJson t m) (Raised e)))
      | Stalled \<Rightarrow> (AwaitInit m, s))"
| "resume s t AwaitReceive r =
     (case r of
        Done \<Rightarrow> (AwaitReceive, s)
      | Raised e \<Rightarrow>
          if e = WebSocketDisconnect then endpoint_disconnect s t else (Finished (Raise e), s)
      | Stalled \<Rightarrow> (AwaitReceive, s))"
| "resume s t WaitDisconnect r = endpoint_disconnect s t"
| "resume s t (WaitBroadcast message ret) r =
     (if lock s = None then broadcast_locked s t message ret
      else (WaitBroadcast message ret, s))"
| "resume s t (AwaitSend message ret conn conns to_remove) r =
     after_send s message ret conn conns to_remove r"
| "resume s t (Finished x) r = (Finished x, s)"

text \<open>What reaches the service: a websocket connects, or a changing route is called.\<close>

datatype request =
    Websocket
  | PostPlayer "(string \<times> json) list" string
  | PatchStats string StatsBase
  | DeletePlayer string

fun start :: "system \<Rightarrow> tid \<Rightarrow> request \<Rightarrow> pc \<times> system" where
  "start s t Websocket = websocket_endpoint s t"
| "start s t (PostPlayer data uid) = create_player s t data uid"
| "start s t (PatchStats player_id stats) = update_stats s t player_id stats"
| "start s t (DeletePlayer player_id) = delete_player s t player_id"

text \<open>
  A step of the event loop: a request arrives and its task runs up to where it first
  gives way, or a task is resumed. A schedule is a list of steps.
\<close>

datatype action = Start request | Resume tid outcome

fun step :: "system \<Rightarrow> action \<Rightarrow> system" where
  "step s (Start req) =
     (case start s (length (tasks s)) req of (pc1, s1) \<Rightarrow> s1\<lparr>tasks := tasks s1 @ [pc1]\<rparr>)"
| "step s (Resume t r) =
     (if t < length (tasks s)
      then (case resume s t (tasks s ! t) r of (pc1, s1) \<Rightarrow> s1\<lparr>tasks := (tasks s1)[t := pc1]\<rparr>)
      else s)"

fun exec :: "system \<Rightarrow> action list \<Rightarrow> system" where
  "exec s [] = s"
| "exec s (a # sched) = exec (step s a) sched"

subsection \<open>Reading the log\<close>

text \<open>
  The messages a channel was handed (the sends to it that returned), the channels a
  stretch of the log got an answer from, the messages \<^verbatim>\<open>send_json\<close> was called with on a
  channel, the channels \<^verbatim>\<open>send_json\<close> was called on.
\<close>

fun delivered :: "event list \<Rightarrow> WebSocket \<Rightarrow> json list" where
  "delivered [] w = []"
| "delivered (IO (SendJson c m) Done # tr) w = (if c = w then m # delivered tr w else delivered tr w)"
| "delivered (_ # tr) w = delivered tr w"

fun attempted :: "event list \<Rightarrow> WebSocket list" where
  "attempted [] = []"
| "attempted (IO (SendJson c m) r # tr) = c # attempted tr"
| "attempted (_ # tr) = attempted tr"

fun calls_to :: "event list \<Rightarrow> WebSocket \<Rightarrow> json list" where
  "calls_to [] w = []"
| "calls_to (Call (SendJson c m) # tr) w = (if c = w then m # calls_to tr w else calls_to tr w)"
| "calls_to (_ # tr) w = calls_to tr w"

fun send_calls :: "event list \<Rightarrow> WebSocket list" where
  "send_calls [] = []"
| "send_calls (Call (SendJson c m) # tr) = c # send_calls tr"
| "send_calls (_ # tr) = send_calls tr"

definition msg_type :: "json \<Rightarrow> json option" where
  "msg_type m = (case m of JObj d \<Rightarrow> map_of d ''type'' | _ \<Rightarrow> None)"

definition is_Snapshot :: "json \<Rightarrow> bool" where
  "is_Snapshot m = (msg_type m = Some (JStr ''init''))"

definition is_Event :: "json \<Rightarrow> bool" where
  "is_Event m = (msg_type m \<in> set [Some (JStr ''player_created''), Some (JStr ''stats_updated''),
                                    Some (JStr ''player_deleted'')])"

subsection \<open>Vocabulary of the theorems\<close>

text \<open>What was added to the log from \<open>s\<close> to \<open>s'\<close>: the log of \<open>s'\<close> after the length of the log of \<open>s\<close>.\<close>

definition log_since :: "'a state_scheme \<Rightarrow> 'b state_scheme \<Rightarrow> event list" where
  "log_since s s' = drop (length (trace s)) (trace s')"

text \<open>
  Two properties of the websocket library that statements about one pass name when they
  need them: what it raises derives from \<^verbatim>\<open>Exception\<close> (a closed channel, a write error, a
  timeout; not the cancellation of the calling task), and every call of it completes.
\<close>

definition raises_Exceptions :: "env \<Rightarrow> bool" where
  "raises_Exceptions orc = (\<forall>tr a e. orc tr a = Raised e \<longrightarrow> is_Exception e)"

definition never_stalls :: "env \<Rightarrow> bool" where
  "never_stalls orc = (\<forall>tr a. orc tr a \<noteq> Stalled)"

text \<open>
  The log entries of sending \<open>m\<close> to the channels \<open>conns\<close> with the outcomes \<open>outs\<close>, one
  after the other; the outcomes after which the loop of \<open>broadcast\<close> goes on; the channels
  whose send did not succeed.
\<close>

definition sends :: "json \<Rightarrow> WebSocket list \<Rightarrow> outcome list \<Rightarrow> event list" where
  "sends m conns outs = map (\<lambda>(c, r). IO (SendJson c m) r) (zip conns outs)"

definition completed :: "outcome \<Rightarrow> bool" where
  "completed r = (case r of Done \<Rightarrow> True | Raised e \<Rightarrow> is_Exception e | Stalled \<Rightarrow> False)"

definition failed :: "WebSocket list \<Rightarrow> outcome list \<Rightarrow> WebSocket list" where
  "failed conns outs = map fst (filter (\<lambda>(c, r). r \<noteq> Done) (zip conns outs))"

text \<open>
  Read from a stretch of the log: the channels whose send raised, the messages
  \<open>broadcast\<close> was called with, the tables committed.
\<close>

fun raised :: "event list \<Rightarrow> WebSocket list" where
  "raised [] = []"
| "raised (IO (SendJson c m) (Raised e) # tr) = c # raised tr"
| "raised (_ # tr) = raised tr"

fun broadcast_calls :: "event list \<Rightarrow> json list" where
  "broadcast_calls [] = []"
| "broadcast_calls (Broadcast m # tr) = m # broadcast_calls tr"
| "broadcast_calls (_ # tr) = broadcast_calls tr"


text \<open>A list of messages that is empty, or one init message followed by events only.\<close>

fun snapshot_first :: "json list \<Rightarrow> bool" where
  "snapshot_first [] = True"
| "snapshot_first (m # ms) = (is_Snapshot m \<and> list_all is_Event ms)"

text \<open>The init messages a channel was handed.\<close>

definition snapshots :: "event list \<Rightarrow> WebSocket \<Rightarrow> json list" where
  "snapshots tr w = filter is_Snapshot (delivered tr w)"

subsection \<open>What every reachable state satisfies\<close>

text \<open>
  Kinds of points a task stands at: in the loop of \<open>broadcast\<close>; before its endpoint has
  called \<^verbatim>\<open>send_json\<close>; in the receive loop or leaving it.
\<close>

fun sending :: "pc \<Rightarrow> bool" where
  "sending (AwaitSend message ret conn conns to_remove) = True"
| "sending _ = False"

fun unsent :: "pc \<Rightarrow> bool" where
  "unsent AwaitAccept = True"
| "unsent WaitConnect = True"
| "unsent _ = False"

fun attached :: "pc \<Rightarrow> bool" where
  "attached AwaitReceive = True"
| "attached WaitDisconnect = True"
| "attached _ = False"

text \<open>A coroutine that has returned.\<close>

fun returned :: "pc \<Rightarrow> bool" where
  "returned (Finished (Return v)) = True"
| "returned _ = False"

text \<open>
  What a point of a task promises: the endpoint awaits the send of an init message; a
  route broadcasts an event, and the channels of its loop are registered.
\<close>

fun pc_ok :: "WebSocket list \<Rightarrow> pc \<Rightarrow> bool" where
  "pc_ok reg (AwaitInit m) = is_Snapshot m"
| "pc_ok reg (WaitBroadcast message ret) = is_Event message"
| "pc_ok reg (AwaitSend message ret conn conns to_remove) =
     (is_Event message \<and> set (conn # conns) \<subseteq> set reg)"
| "pc_ok reg _ = True"

text \<open>
  The invariant of the transition system.
  \<^item> The lock is held by the one task that stands in the loop of \<open>broadcast\<close>, if any.
  \<^item> Every task keeps the promise of its point.
  \<^item> \<^verbatim>\<open>send_json\<close> has not been called on the websocket of an endpoint that has not
    registered it, nor on a websocket that does not exist yet.
  \<^item> \<^verbatim>\<open>send_json\<close> has been called on every registered websocket.
  \<^item> On every websocket the messages \<^verbatim>\<open>send_json\<close> was called with are an init message
    followed by events, or none.
  \<^item> The registry holds no websocket twice.
  \<^item> An endpoint in its receive loop was handed one init message, an endpoint before it
    none, and no websocket more than one.
\<close>

definition consistent :: "system \<Rightarrow> bool" where
  "consistent s =
     ((\<forall>t. lock s = Some t \<longrightarrow> t < length (tasks s)) \<and>
      (\<forall>t < length (tasks s). sending (tasks s ! t) \<longleftrightarrow> lock s = Some t) \<and>
      (\<forall>t < length (tasks s). pc_ok (active_connections s) (tasks s ! t)) \<and>
      (\<forall>t < length (tasks s). unsent (tasks s ! t) \<longrightarrow> calls_to (trace s) t = []) \<and>
      (\<forall>t \<ge> length (tasks s). calls_to (trace s) t = []) \<and>
      (\<forall>w \<in> set (active_connections s). calls_to (trace s) w \<noteq> []) \<and>
      (\<forall>w. snapshot_first (calls_to (trace s) w)) \<and>
      distinct (active_connections s))"


text \<open>
  What the start of a changing route amounts to: it ends without a result and with the
  state as it was, or it commits and calls \<open>broadcast\<close> with an event.
\<close>

definition route_result :: "system \<Rightarrow> tid \<Rightarrow> pc \<times> system \<Rightarrow> bool" where
  "route_result s t res =
     (\<exists>x rows m ret. (res = (Finished x, s) \<and> (\<forall>v. x \<noteq> Return v)) \<or>
        (is_Event m \<and>
         res = call_broadcast (s\<lparr>players := rows, trace := trace s @ [Commit rows]\<rparr>) t m ret))"

subsection \<open>Example inputs\<close>

text \<open>The two players \<open>startup\<close> seeds an empty table with, under identifiers of our choice.\<close>

definition kohli :: Player where
  "kohli = \<lparr>id' = ''p1'', name = ''Virat Kohli'', sport = ''cricket'', team = ''India'', age = 36,
            matches = 260, runs_or_goals = 12040, average = 59.3\<rparr>"

definition messi :: Player where
  "messi = \<lparr>id' = ''p2'', name = ''Lionel Messi'', sport = ''football'', team = ''Inter Miami'',
            age = 37, matches = 1000, runs_or_goals = 820, average = 0.82\<rparr>"

text \<open>For one pass: a state with three channels registered.\<close>

definition st_three :: state where
  "st_three = \<lparr>players = [kohli, messi], active_connections = [1, 2, 3], trace = []\<rparr>"

text \<open>
  Libraries, for one pass: every send to channel 2 finds it closed; no send to channel 1
  ever completes; the send to channel 1 fails and the task is cancelled during the send to
  channel 2.
\<close>

fun env_closed2 :: "event list \<Rightarrow> io \<Rightarrow> outcome" where
  "env_closed2 tr (SendJson c m) = (if c = 2 then Raised WebSocketDisconnect else Done)"
| "env_closed2 tr (Accept c) = Done"


fun env_fail1_cancel2 :: "event list \<Rightarrow> io \<Rightarrow> outcome" where
  "env_fail1_cancel2 tr (SendJson c m) =
     (if c = 1 then Raised OSError else if c = 2 then Raised CancelledError else Done)"
| "env_fail1_cancel2 tr (Accept c) = Done"

definition msg_deleted :: json where
  "msg_deleted = JObj [(''type'', JStr ''player_deleted''), (''player_id'', JStr ''p1'')]"

text \<open>
  The service after start, and schedules: two websockets connect and get their init
  message; a third one connects too.
\<close>

definition st_start :: system where
  "st_start = initial [kohli, messi]"

definition two_listeners :: "action list" where
  "two_listeners = [Start Websocket, Resume 0 Done, Resume 0 Done,
                    Start Websocket, Resume 1 Done, Resume 1 Done]"

definition three_listeners :: "action list" where
  "three_listeners = two_listeners @ [Start Websocket, Resume 2 Done, Resume 2 Done]"

text \<open>Request bodies of \<open>update_stats\<close>: one that fits, two with an integer beyond 64 bits.\<close>

definition new_stats :: StatsBase where
  "new_stats = \<lparr>StatsBase.matches = 261, StatsBase.runs_or_goals = 12100,
                 StatsBase.average = 59.5\<rparr>"



text \<open>
  Request bodies of \<open>create_player\<close>: the required keys only; the same without \<^verbatim>\<open>average\<close>;
  with \<^verbatim>\<open>stats\<close> null; with an integer \<^verbatim>\<open>average\<close>; with \<^verbatim>\<open>matches\<close> beyond 64 bits.
\<close>

definition body_root :: "(string \<times> json) list" where
  "body_root = [(''name'', JStr ''Joe Root''), (''sport'', JStr ''cricket''),
                (''stats'', JObj [(''matches'', JInt 150), (''runs_or_goals'', JInt 12000),
                                  (''average'', JFloat 50.5)])]"





section \<open>Lemmas\<close>

subsection \<open>One pass of broadcast\<close>

lemma completed_simps [simp]:
  "completed Done" "completed (Raised e) = is_Exception e" "\<not> completed Stalled"
  by (simp_all add: completed_def)

lemma perform_eq: "perform orc s a = (orc (trace s) a, s\<lparr>trace := trace s @ [IO a (orc (trace s) a)]\<rparr>)"
  by (simp add: perform_def Let_def)

lemma sends_Nil [simp]: "sends m [] outs = []" "sends m conns [] = []"
  by (simp_all add: sends_def)

lemma sends_Cons [simp]: "sends m (c # conns) (r # outs) = IO (SendJson c m) r # sends m conns outs"
  by (simp add: sends_def)

lemma failed_Nil [simp]: "failed [] outs = []" "failed conns [] = []"
  by (simp_all add: failed_def)

lemma failed_Cons [simp]:
  "failed (c # conns) (r # outs) = (if r = Done then failed conns outs else c # failed conns outs)"
  by (simp add: failed_def)

lemma send_all_Return:
  "send_all orc m conns to_remove s = (Return to_remove', s') \<Longrightarrow>
   \<exists>outs. length outs = length conns \<and> list_all completed outs \<and>
          s' = s\<lparr>trace := trace s @ sends m conns outs\<rparr> \<and>
          to_remove' = to_remove @ failed conns outs"
proof (induction conns arbitrary: to_remove s)
  case Nil
  then show ?case by simp
next
  case (Cons c conns)
  show ?case
  proof (cases "orc (trace s) (SendJson c m)")
    case Done
    with Cons.prems have "send_all orc m conns to_remove (s\<lparr>trace := trace s @ [IO (SendJson c m) Done]\<rparr>) = (Return to_remove', s')"
      by (simp add: perform_eq)
    from Cons.IH [OF this] obtain outs where
      "length outs = length conns" "list_all completed outs"
      "s' = s\<lparr>trace := trace s @ IO (SendJson c m) Done # sends m conns outs\<rparr>"
      "to_remove' = to_remove @ failed conns outs"
      by auto
    then show ?thesis
      by (intro exI [of _ "Done # outs"]) simp
  next
    case (Raised e)
    with Cons.prems have ex: "is_Exception e"
      by (auto simp: perform_eq split: if_splits)
    with Raised Cons.prems have "send_all orc m conns (to_remove @ [c]) (s\<lparr>trace := trace s @ [IO (SendJson c m) (Raised e)]\<rparr>) = (Return to_remove', s')"
      by (simp add: perform_eq)
    from Cons.IH [OF this] obtain outs where
      "length outs = length conns" "list_all completed outs"
      "s' = s\<lparr>trace := trace s @ IO (SendJson c m) (Raised e) # sends m conns outs\<rparr>"
      "to_remove' = to_remove @ c # failed conns outs"
      by auto
    with ex show ?thesis
      by (intro exI [of _ "Raised e # outs"]) simp
  next
    case Stalled
    with Cons.prems show ?thesis by (simp add: perform_eq)
  qed
qed

lemma send_all_returns:
  "raises_Exceptions orc \<Longrightarrow> never_stalls orc \<Longrightarrow>
   \<exists>to_remove' s'. send_all orc m conns to_remove s = (Return to_remove', s')"
proof (induction conns arbitrary: to_remove s)
  case Nil
  then show ?case by simp
next
  case (Cons c conns)
  show ?case
  proof (cases "orc (trace s) (SendJson c m)")
    case Done
    then show ?thesis using Cons by (simp add: perform_eq)
  next
    case (Raised e)
    with Cons.prems have "is_Exception e" by (auto simp: raises_Exceptions_def)
    with Raised show ?thesis using Cons by (simp add: perform_eq)
  next
    case Stalled
    with Cons.prems show ?thesis by (simp add: never_stalls_def)
  qed
qed

lemma send_all_Cons_Done:
  "orc (trace s) (SendJson c m) = Done \<Longrightarrow>
   send_all orc m (c # conns) to_remove s =
   send_all orc m conns to_remove (s\<lparr>trace := trace s @ [IO (SendJson c m) Done]\<rparr>)"
  by (simp add: perform_eq)

lemma send_all_Cons_caught:
  "orc (trace s) (SendJson c m) = Raised e \<Longrightarrow> is_Exception e \<Longrightarrow>
   send_all orc m (c # conns) to_remove s =
   send_all orc m conns (to_remove @ [c]) (s\<lparr>trace := trace s @ [IO (SendJson c m) (Raised e)]\<rparr>)"
  by (simp add: perform_eq)

lemma send_all_Cons_uncaught:
  "orc (trace s) (SendJson c m) = Raised e \<Longrightarrow> \<not> is_Exception e \<Longrightarrow>
   send_all orc m (c # conns) to_remove s =
   (Raise e, s\<lparr>trace := trace s @ [IO (SendJson c m) (Raised e)]\<rparr>)"
  by (simp add: perform_eq)

lemma send_all_Cons_Stalled:
  "orc (trace s) (SendJson c m) = Stalled \<Longrightarrow>
   send_all orc m (c # conns) to_remove s =
   (Stall, s\<lparr>trace := trace s @ [IO (SendJson c m) Stalled]\<rparr>)"
  by (simp add: perform_eq)

declare send_all.simps(2) [simp del]

lemma send_all_log:
  "\<exists>outs. length outs \<le> length conns \<and>
     snd (send_all orc m conns to_remove s) = s\<lparr>trace := trace s @ sends m conns outs\<rparr>"
proof (induction conns arbitrary: to_remove s)
  case Nil
  then show ?case by simp
next
  case (Cons c conns)
  let ?r = "orc (trace s) (SendJson c m)"
  let ?s1 = "s\<lparr>trace := trace s @ [IO (SendJson c m) ?r]\<rparr>"
  have stop: "\<exists>outs. length outs \<le> length (c # conns) \<and>
      ?s1 = s\<lparr>trace := trace s @ sends m (c # conns) outs\<rparr>"
    by (intro exI [of _ "[?r]"]) simp
  have go: "\<exists>outs. length outs \<le> length (c # conns) \<and>
      snd (send_all orc m conns tr ?s1) = s\<lparr>trace := trace s @ sends m (c # conns) outs\<rparr>" for tr
  proof -
    from Cons.IH [of tr ?s1] obtain outs where
      "length outs \<le> length conns"
      "snd (send_all orc m conns tr ?s1) = ?s1\<lparr>trace := trace ?s1 @ sends m conns outs\<rparr>"
      by blast
    then show ?thesis
      by (intro exI [of _ "?r # outs"]) simp
  qed
  show ?case
  proof (cases ?r)
    case Done
    then show ?thesis using go [of to_remove] by (simp add: send_all_Cons_Done)
  next
    case (Raised e)
    then show ?thesis
      using go [of "to_remove @ [c]"] stop
      by (cases "is_Exception e") (simp_all add: send_all_Cons_caught send_all_Cons_uncaught)
  next
    case Stalled
    then show ?thesis using stop by (simp add: send_all_Cons_Stalled)
  qed
qed

lemma send_all_Stall:
  "send_all orc m conns to_remove s = (Stall, s') \<Longrightarrow>
   \<exists>pre c post outs. conns = pre @ c # post \<and> length outs = length pre \<and>
     list_all completed outs \<and>
     s' = s\<lparr>trace := trace s @ sends m pre outs @ [IO (SendJson c m) Stalled]\<rparr>"
proof (induction conns arbitrary: to_remove s)
  case Nil
  then show ?case by simp
next
  case (Cons c conns)
  let ?r = "orc (trace s) (SendJson c m)"
  let ?s1 = "s\<lparr>trace := trace s @ [IO (SendJson c m) ?r]\<rparr>"
  have go: "\<exists>pre c' post outs. c # conns = pre @ c' # post \<and> length outs = length pre \<and>
     list_all completed outs \<and>
     s' = s\<lparr>trace := trace s @ sends m pre outs @ [IO (SendJson c' m) Stalled]\<rparr>"
    if run: "send_all orc m conns tr ?s1 = (Stall, s')" and ok: "completed ?r" for tr
  proof -
    from Cons.IH [OF run] obtain pre c' post outs where
      "conns = pre @ c' # post" "length outs = length pre" "list_all completed outs"
      "s' = ?s1\<lparr>trace := trace ?s1 @ sends m pre outs @ [IO (SendJson c' m) Stalled]\<rparr>"
      by blast
    with ok show ?thesis
      by (intro exI [of _ "c # pre"] exI [of _ c'] exI [of _ post] exI [of _ "?r # outs"]) simp
  qed
  show ?case
  proof (cases ?r)
    case Done
    then show ?thesis using go [of to_remove] Cons.prems by (simp add: send_all_Cons_Done)
  next
    case (Raised e)
    show ?thesis
    proof (cases "is_Exception e")
      case True
      then show ?thesis using go [of "to_remove @ [c]"] Cons.prems Raised
        by (simp add: send_all_Cons_caught)
    next
      case False
      then show ?thesis using Cons.prems Raised by (simp add: send_all_Cons_uncaught)
    qed
  next
    case Stalled
    with Cons.prems have "s' = s\<lparr>trace := trace s @ [IO (SendJson c m) Stalled]\<rparr>"
      by (simp add: send_all_Cons_Stalled)
    then show ?thesis
      by (intro exI [of _ "[]"] exI [of _ c] exI [of _ conns]) simp
  qed
qed

lemma delivered_append: "delivered (xs @ ys) w = delivered xs w @ delivered ys w"
  by (induction xs w rule: delivered.induct) auto

lemma attempted_append: "attempted (xs @ ys) = attempted xs @ attempted ys"
  by (induction xs rule: attempted.induct) auto

lemma attempted_sends: "attempted (sends m conns outs) = take (length outs) conns"
proof (induction conns arbitrary: outs)
  case Nil
  then show ?case by simp
next
  case (Cons c conns)
  then show ?case by (cases outs) simp_all
qed

lemma delivered_sends: "set (delivered (sends m conns outs) w) \<subseteq> {m}"
proof (induction conns arbitrary: outs)
  case Nil
  then show ?case by simp
next
  case (Cons c conns)
  show ?case
  proof (cases outs)
    case Nil
    then show ?thesis by simp
  next
    case (Cons r outs')
    with Cons.IH [of outs'] show ?thesis by (cases r) auto
  qed
qed

lemma remove_failed_subset: "set (remove_failed rs conns) \<subseteq> set conns"
proof (induction rs arbitrary: conns)
  case Nil
  then show ?case by simp
next
  case (Cons r rs)
  have "set (remove1 r conns) \<subseteq> set conns" by (rule set_remove1_subset)
  with Cons [of "remove1 r conns"] Cons [of conns] show ?case by auto
qed

lemma remove_failed_distinct:
  "distinct conns \<Longrightarrow> remove_failed rs conns = filter (\<lambda>c. c \<notin> set rs) conns"
proof (induction rs arbitrary: conns)
  case Nil
  then show ?case by simp
next
  case (Cons r rs)
  have r1: "remove1 r conns = filter (\<lambda>c. c \<noteq> r) conns"
    using Cons.prems by (simp add: distinct_remove1_removeAll removeAll_filter_not_eq) metis
  have absent: "r \<notin> set conns \<Longrightarrow> filter (\<lambda>c. c \<noteq> r) conns = conns"
    by (induction conns) auto
  have "remove_failed (r # rs) conns = remove_failed rs (filter (\<lambda>c. c \<noteq> r) conns)"
    using r1 absent by simp
  also have "\<dots> = filter (\<lambda>c. c \<notin> set rs) (filter (\<lambda>c. c \<noteq> r) conns)"
    using Cons.prems by (intro Cons.IH) simp
  also have "\<dots> = filter (\<lambda>c. c \<notin> set (r # rs)) conns"
    by (simp add: conj_commute)
  finally show ?case .
qed

lemma log_since_append: "trace s' = trace s @ evs \<Longrightarrow> log_since s s' = evs"
  by (simp add: log_since_def)

lemma send_all_no_Raise:
  "raises_Exceptions orc \<Longrightarrow> fst (send_all orc m conns to_remove s) \<noteq> Raise e"
proof (induction conns arbitrary: to_remove s)
  case Nil
  then show ?case by simp
next
  case (Cons c conns)
  show ?case
  proof (cases "orc (trace s) (SendJson c m)")
    case Done
    then show ?thesis using Cons by (simp add: send_all_Cons_Done)
  next
    case (Raised e')
    with Cons.prems have "is_Exception e'" by (auto simp: raises_Exceptions_def)
    with Raised show ?thesis using Cons by (simp add: send_all_Cons_caught)
  next
    case Stalled
    then show ?thesis by (simp add: send_all_Cons_Stalled)
  qed
qed

lemma send_all_modelled: "fst (send_all orc m conns to_remove s) \<noteq> Unmodelled"
proof (induction conns arbitrary: to_remove s)
  case Nil
  then show ?case by simp
next
  case (Cons c conns)
  show ?case
  proof (cases "orc (trace s) (SendJson c m)")
    case Done
    then show ?thesis using Cons by (simp add: send_all_Cons_Done)
  next
    case (Raised e')
    then show ?thesis using Cons
      by (cases "is_Exception e'") (simp_all add: send_all_Cons_caught send_all_Cons_uncaught)
  next
    case Stalled
    then show ?thesis by (simp add: send_all_Cons_Stalled)
  qed
qed

lemma fst_bind_r_unit:
  "fst (bind_r x (\<lambda>v s1. (Return u, f v s1))) =
     (case fst x of Return v \<Rightarrow> Return u | Raise e \<Rightarrow> Raise e | Stall \<Rightarrow> Stall
      | Unmodelled \<Rightarrow> Unmodelled)"
proof (cases x)
  case (Pair r s)
  then show ?thesis by (cases r) simp_all
qed

lemma snd_bind_r_keep: "snd (bind_r x (\<lambda>v s1. (g v, s1))) = snd x"
proof (cases x)
  case (Pair r s)
  then show ?thesis by (cases r) simp_all
qed

lemma broadcast_fst:
  "fst (broadcast orc s m) =
     (case fst (send_all orc m (active_connections s) [] (s\<lparr>trace := trace s @ [Broadcast m]\<rparr>)) of
        Return v \<Rightarrow> Return () | Raise e \<Rightarrow> Raise e | Stall \<Rightarrow> Stall | Unmodelled \<Rightarrow> Unmodelled)"
  by (simp add: broadcast_def Let_def fst_bind_r_unit)

lemma broadcast_Return:
  assumes "raises_Exceptions orc" "never_stalls orc"
  shows "\<exists>outs. length outs = length (active_connections s) \<and> list_all completed outs \<and>
     send_all orc m (active_connections s) [] (s\<lparr>trace := trace s @ [Broadcast m]\<rparr>) =
       (Return (failed (active_connections s) outs),
        s\<lparr>trace := trace s @ Broadcast m # sends m (active_connections s) outs\<rparr>) \<and>
     broadcast orc s m =
       (Return (),
        s\<lparr>trace := trace s @ Broadcast m # sends m (active_connections s) outs,
          active_connections :=
            remove_failed (failed (active_connections s) outs) (active_connections s)\<rparr>)"
proof -
  let ?s0 = "s\<lparr>trace := trace s @ [Broadcast m]\<rparr>"
  from send_all_returns [OF assms] obtain to_remove s1 where
    run: "send_all orc m (active_connections s) [] ?s0 = (Return to_remove, s1)"
    by blast
  from send_all_Return [OF run] obtain outs where
    outs: "length outs = length (active_connections s)" "list_all completed outs"
      "s1 = ?s0\<lparr>trace := trace ?s0 @ sends m (active_connections s) outs\<rparr>"
      "to_remove = failed (active_connections s) outs"
    by auto
  show ?thesis
    using run outs by (intro exI [of _ outs]) (simp add: broadcast_def Let_def)
qed

lemma broadcast_log:
  "\<exists>outs. length outs \<le> length (active_connections s) \<and>
     trace (snd (broadcast orc s m)) = trace s @ Broadcast m # sends m (active_connections s) outs \<and>
     players (snd (broadcast orc s m)) = players s \<and>
     set (active_connections (snd (broadcast orc s m))) \<subseteq> set (active_connections s)"
proof -
  let ?s0 = "s\<lparr>trace := trace s @ [Broadcast m]\<rparr>"
  obtain r s1 where run: "send_all orc m (active_connections s) [] ?s0 = (r, s1)"
    by (cases "send_all orc m (active_connections s) [] ?s0")
  from send_all_log [of "active_connections s" orc m "[]" ?s0] run obtain outs where
    outs: "length outs \<le> length (active_connections s)"
      "s1 = ?s0\<lparr>trace := trace ?s0 @ sends m (active_connections s) outs\<rparr>"
    by auto
  have "set (remove_failed xs (active_connections s)) \<subseteq> set (active_connections s)" for xs
    by (rule remove_failed_subset)
  then show ?thesis
    using run outs
    by (intro exI [of _ outs]) (cases r; simp add: broadcast_def Let_def)
qed

lemma session_get_Some: "session_get rows k = Some p \<Longrightarrow> id' p = k \<and> p \<in> set rows"
  by (induction rows) (auto simp: session_get_def split: if_splits)

lemma session_get_None: "session_get rows k = None \<longleftrightarrow> k \<notin> set (map id' rows)"
  by (induction rows) (auto simp: session_get_def)


lemma session_get_replace:
  "session_get rows k = Some p0 \<Longrightarrow> id' p = k \<Longrightarrow>
   session_get (map (\<lambda>q. if id' q = k then p else q) rows) k = Some p"
  by (induction rows) (auto simp: session_get_def split: if_splits)

lemma is_Event_messages:
  "is_Event (JObj [(''type'', JStr ''player_created''), (''player'', d)])"
  "is_Event (JObj [(''type'', JStr ''stats_updated''), (''player'', d)])"
  "is_Event (JObj [(''type'', JStr ''player_deleted''), (''player_id'', d)])"
  "\<not> is_Event (init_message rows)"
  "is_Snapshot (init_message rows)"
  by (simp_all add: is_Event_def is_Snapshot_def msg_type_def init_message_def)


lemma failed_subset: "set (failed conns outs) \<subseteq> set conns"
proof -
  have "set (failed conns outs) \<subseteq> fst ` set (zip conns outs)"
    by (auto simp: failed_def)
  also have "\<dots> \<subseteq> set conns"
    by (auto dest: set_zip_leftD)
  finally show ?thesis .
qed

lemma sends_channel: "IO (SendJson c m) r \<in> set (sends m conns outs) \<Longrightarrow> c \<in> set conns"
  by (auto simp: sends_def dest: set_zip_leftD)

lemma sends_Raised_failed:
  "IO (SendJson w m) (Raised e) \<in> set (sends m conns outs) \<Longrightarrow> w \<in> set (failed conns outs)"
  by (force simp: sends_def failed_def)

lemma kept_iff_Done:
  "length outs = length conns \<Longrightarrow> distinct conns \<Longrightarrow> c \<in> set conns \<Longrightarrow>
   c \<notin> set (failed conns outs) \<longleftrightarrow> IO (SendJson c m) Done \<in> set (sends m conns outs)"
proof (induction outs conns rule: list_induct2)
  case Nil
  then show ?case by simp
next
  case (Cons r outs c' conns)
  show ?case
  proof (cases "c = c'")
    case True
    with Cons.prems have "c \<notin> set conns" by simp
    then have "c \<notin> set (failed conns outs)" "IO (SendJson c m) Done \<notin> set (sends m conns outs)"
      using failed_subset [of conns outs] sends_channel [of c m Done conns outs] by auto
    with True show ?thesis by auto
  next
    case False
    with Cons show ?thesis by auto
  qed
qed

lemma broadcast_calls_append:
  "broadcast_calls (xs @ ys) = broadcast_calls xs @ broadcast_calls ys"
  by (induction xs rule: broadcast_calls.induct) auto

lemma broadcast_calls_sends: "broadcast_calls (sends m conns outs) = []"
proof (induction conns arbitrary: outs)
  case Nil
  then show ?case by simp
next
  case (Cons c conns)
  then show ?case by (cases outs) simp_all
qed

lemma log_since_same: "log_since s s = []"
  by (simp add: log_since_def)

lemma raised_append: "raised (xs @ ys) = raised xs @ raised ys"
  by (induction xs rule: raised.induct) auto


lemma broadcast_returned:
  assumes "broadcast orc s m = (Return (), s')"
  shows "\<exists>outs. length outs = length (active_connections s) \<and> list_all completed outs \<and>
     s' = s\<lparr>trace := trace s @ Broadcast m # sends m (active_connections s) outs,
            active_connections :=
              remove_failed (failed (active_connections s) outs) (active_connections s)\<rparr>"
proof -
  let ?s0 = "s\<lparr>trace := trace s @ [Broadcast m]\<rparr>"
  obtain r s1 where run: "send_all orc m (active_connections s) [] ?s0 = (r, s1)"
    by (cases "send_all orc m (active_connections s) [] ?s0")
  with assms obtain to_remove where r: "r = Return to_remove"
    by (cases r) (simp_all add: broadcast_def Let_def)
  from send_all_Return [OF run [unfolded r]] obtain outs where
    outs: "length outs = length (active_connections s)" "list_all completed outs"
      "s1 = ?s0\<lparr>trace := trace ?s0 @ sends m (active_connections s) outs\<rparr>"
      "to_remove = failed (active_connections s) outs"
    by auto
  show ?thesis
    using assms run r outs by (intro exI [of _ outs]) (simp add: broadcast_def Let_def)
qed

lemma send_all_registry:
  "active_connections (snd (send_all orc m conns to_remove s)) = active_connections s"
proof -
  from send_all_log [of conns orc m to_remove s] obtain outs where
    "snd (send_all orc m conns to_remove s) = s\<lparr>trace := trace s @ sends m conns outs\<rparr>"
    by blast
  then show ?thesis by simp
qed

lemma broadcast_not_returned:
  assumes "broadcast orc s m = (r, s')" "r \<noteq> Return ()"
  shows "active_connections s' = active_connections s"
proof -
  let ?s0 = "s\<lparr>trace := trace s @ [Broadcast m]\<rparr>"
  obtain r1 s1 where run: "send_all orc m (active_connections s) [] ?s0 = (r1, s1)"
    by (cases "send_all orc m (active_connections s) [] ?s0")
  have "active_connections s1 = active_connections s"
    using send_all_registry [of orc m "active_connections s" "[]" ?s0] run by simp
  with assms run show ?thesis
    by (cases r1) (auto simp: broadcast_def Let_def)
qed

lemma broadcast_attempted:
  "attempted (log_since s (snd (broadcast orc s m))) =
     take (length (attempted (log_since s (snd (broadcast orc s m))))) (active_connections s)"
proof -
  from broadcast_log [of s orc m] obtain outs where
    len: "length outs \<le> length (active_connections s)"
    and tr: "trace (snd (broadcast orc s m)) = trace s @ Broadcast m # sends m (active_connections s) outs"
    by blast
  have "log_since s (snd (broadcast orc s m)) = Broadcast m # sends m (active_connections s) outs"
    using tr by (rule log_since_append)
  then show ?thesis
    using len by (simp add: attempted_sends min_def)
qed

subsection \<open>The steps of the service\<close>

lemma calls_to_append [simp]: "calls_to (xs @ ys) w = calls_to xs w @ calls_to ys w"
  by (induction xs w rule: calls_to.induct) auto

lemma send_calls_append [simp]: "send_calls (xs @ ys) = send_calls xs @ send_calls ys"
  by (induction xs rule: send_calls.induct) auto

lemma calls_to_Commits [simp]: "calls_to (map Commit cs) w = []"
  by (induction cs) auto

lemma snapshot_first_snoc:
  "snapshot_first (ms @ [m]) = (if ms = [] then is_Snapshot m else snapshot_first ms \<and> is_Event m)"
  by (cases ms) auto

lemma snapshots_append [simp]: "snapshots (xs @ ys) w = snapshots xs w @ snapshots ys w"
  by (simp add: snapshots_def delivered_append)

lemma snapshots_Commits [simp]: "snapshots (map Commit cs) w = []"
  by (induction cs) (auto simp: snapshots_def)

lemma inv_quiet:
  "consistent s \<Longrightarrow> consistent (s\<lparr>players := rows, trace := trace s @ map Commit cs\<rparr>)"
  by (simp add: consistent_def)

lemma inv_finish_new: "consistent s \<Longrightarrow> consistent (s\<lparr>tasks := tasks s @ [Finished x]\<rparr>)"
  by (auto simp: consistent_def nth_append)

lemma call_broadcast_held:
  "lock s \<noteq> None \<Longrightarrow>
   call_broadcast s t m ret = (WaitBroadcast m ret, s\<lparr>trace := trace s @ [Broadcast m]\<rparr>)"
  by (auto simp: call_broadcast_def logged_def Let_def)

lemma broadcast_locked_Nil:
  "active_connections s = [] \<Longrightarrow>
   broadcast_locked s t m ret = (Finished (Return ret), s\<lparr>active_connections := [], lock := None\<rparr>)"
  by (simp add: broadcast_locked_def)

lemma broadcast_locked_Cons:
  "active_connections s = c # cs \<Longrightarrow>
   broadcast_locked s t m ret =
     (AwaitSend m ret c cs [], s\<lparr>trace := trace s @ [Call (SendJson c m)], lock := Some t\<rparr>)"
  by (simp add: broadcast_locked_def logged_def)

lemma call_broadcast_free:
  "lock s = None \<Longrightarrow>
   call_broadcast s t m ret = broadcast_locked (s\<lparr>trace := trace s @ [Broadcast m]\<rparr>) t m ret"
  by (simp add: call_broadcast_def logged_def Let_def)

lemma inv_broadcast_locked_new:
  assumes "consistent s" "is_Event m" "lock s = None" "broadcast_locked s (length (tasks s)) m ret = (pc1, s1)"
  shows "consistent (s1\<lparr>tasks := tasks s1 @ [pc1]\<rparr>)"
proof (cases "active_connections s")
  case Nil
  with assms show ?thesis
    by (auto simp: broadcast_locked_Nil consistent_def nth_append)
next
  case (Cons c cs)
  with assms show ?thesis
    by (auto simp: broadcast_locked_Cons consistent_def nth_append snapshot_first_snoc)
qed

lemma inv_call_broadcast_new:
  assumes "consistent s" "is_Event m" "call_broadcast s (length (tasks s)) m ret = (pc1, s1)"
  shows "consistent (s1\<lparr>tasks := tasks s1 @ [pc1]\<rparr>)"
proof (cases "lock s")
  case None
  have "consistent (s\<lparr>trace := trace s @ [Broadcast m]\<rparr>)"
    using assms(1) by (simp add: consistent_def)
  from inv_broadcast_locked_new [OF this assms(2), of ret pc1 s1] show ?thesis
    using assms(3) None by (simp add: call_broadcast_free)
next
  case (Some t)
  with assms show ?thesis
    by (auto simp: call_broadcast_held consistent_def nth_append)
qed


lemma route_resultI1: "route_result s t (Finished (Raise e), s)" "route_result s t (Finished Unmodelled, s)"
  unfolding route_result_def by blast+

lemma route_resultI2:
  "is_Event m \<Longrightarrow>
   route_result s t (call_broadcast (s\<lparr>players := rows, trace := trace s @ [Commit rows]\<rparr>) t m ret)"
  unfolding route_result_def by blast

lemma commit_Inr:
  "list_all fits_INTEGER written \<Longrightarrow> distinct (map id' (players s)) \<longrightarrow> distinct (map id' rows) \<Longrightarrow>
   commit s rows written = Inr (s\<lparr>players := rows, trace := trace s @ [Commit rows]\<rparr>)"
  by (auto simp: commit_def)

lemma commit_Inl_cases:
  "commit s rows written = Inl e \<Longrightarrow> e = OverflowError \<or> e = IntegrityError"
  by (auto simp: commit_def split: if_splits)

lemma commit_Inr_eq:
  "commit s rows written = Inr s1 \<Longrightarrow> s1 = s\<lparr>players := rows, trace := trace s @ [Commit rows]\<rparr>"
  by (auto simp: commit_def split: if_splits)

lemma update_stats_missing:
  "session_get (players s) player_id = None \<Longrightarrow>
   update_stats s t player_id stats = (Finished (Raise (HTTPException 404 ''Player not found'')), s)"
  by (simp add: update_stats_def)

lemma map_id_replace:
  "id' p = k \<Longrightarrow> map id' (map (\<lambda>q. if id' q = k then p else q) rows) = map id' rows"
  by (induction rows) auto

lemma update_stats_overflow:
  assumes "session_get (players s) player_id = Some p0"
    "\<not> (fits_INTEGER (StatsBase.matches stats) \<and> fits_INTEGER (StatsBase.runs_or_goals stats))"
  shows "update_stats s t player_id stats = (Finished (Raise OverflowError), s)"
  using assms by (auto simp: update_stats_def commit_def Let_def)

lemma update_stats_stored:
  fixes p0 :: Player and stats :: StatsBase and player_id :: string and s :: system
  defines "p \<equiv> p0\<lparr>matches := StatsBase.matches stats,
                 runs_or_goals := StatsBase.runs_or_goals stats,
                 average := StatsBase.average stats\<rparr>"
  defines "rows \<equiv> map (\<lambda>q. if id' q = player_id then p else q) (players s)"
  assumes found: "session_get (players s) player_id = Some p0"
    and fits: "fits_INTEGER (StatsBase.matches stats)" "fits_INTEGER (StatsBase.runs_or_goals stats)"
  shows "update_stats s t player_id stats =
     call_broadcast (s\<lparr>players := rows, trace := trace s @ [Commit rows]\<rparr>) t
       (JObj [(''type'', JStr ''stats_updated''), (''player'', player_to_dict p)])
       (player_to_dict p)"
proof -
  have k: "id' p = player_id"
    using session_get_Some [OF found] by (simp add: p_def)
  have ids: "map id' rows = map id' (players s)"
    unfolding rows_def by (rule map_id_replace [OF k])
  have c: "commit s rows [StatsBase.matches stats, StatsBase.runs_or_goals stats] =
      Inr (s\<lparr>players := rows, trace := trace s @ [Commit rows]\<rparr>)"
    using fits ids by (intro commit_Inr) simp_all
  have r: "refresh rows p = Inr p"
    using session_get_replace [OF found k] k by (simp add: refresh_def rows_def)
  have k0: "id' p0 = player_id"
    using session_get_Some [OF found] by simp
  have u: "update_stats s t player_id stats =
      (case commit s rows [StatsBase.matches stats, StatsBase.runs_or_goals stats] of
         Inl e \<Rightarrow> (Finished (Raise e), s)
       | Inr s1 \<Rightarrow>
           (case refresh (players s1) p of
              Inl e \<Rightarrow> (Finished (Raise e), s1)
            | Inr p1 \<Rightarrow>
                call_broadcast s1 t
                  (JObj [(''type'', JStr ''stats_updated''), (''player'', player_to_dict p1)])
                  (player_to_dict p1)))"
    unfolding update_stats_def Let_def p_def rows_def using found k0 by simp
  show ?thesis
    unfolding u by (simp add: c r)
qed

lemma delete_player_missing:
  "session_get (players s) player_id = None \<Longrightarrow>
   delete_player s t player_id = (Finished (Raise (HTTPException 404 ''Player not found'')), s)"
  by (simp add: delete_player_def)

lemma delete_player_stored:
  fixes player_id :: string and s :: system
  defines "rows \<equiv> filter (\<lambda>q. id' q \<noteq> player_id) (players s)"
  assumes found: "session_get (players s) player_id = Some p"
  shows "delete_player s t player_id =
     call_broadcast (s\<lparr>players := rows, trace := trace s @ [Commit rows]\<rparr>) t
       (JObj [(''type'', JStr ''player_deleted''), (''player_id'', JStr player_id)])
       (JObj [(''ok'', JBool True)])"
proof -
  have k: "id' p = player_id"
    using session_get_Some [OF found] by simp
  have c: "commit s rows [] = Inr (s\<lparr>players := rows, trace := trace s @ [Commit rows]\<rparr>)"
    by (intro commit_Inr) (simp_all add: rows_def distinct_map_filter)
  show ?thesis
    using found c k by (simp add: delete_player_def rows_def)
qed

lemma refresh_added: "\<exists>p1. refresh (rows @ [p]) p = Inr p1"
proof (cases "session_get (rows @ [p]) (id' p)")
  case None
  then show ?thesis by (simp add: session_get_None)
next
  case (Some q)
  then show ?thesis by (simp add: refresh_def)
qed

lemma route_result_create: "route_result s t (create_player s t data uid)"
proof (cases "player_args data")
  case (Inl e)
  then show ?thesis by (simp add: create_player_def route_resultI1)
next
  case (Inr args)
  show ?thesis
  proof (cases "new_Player uid args")
    case None
    with Inr show ?thesis by (simp add: create_player_def route_resultI1)
  next
    case (Some pw)
    obtain p written where pw: "pw = (p, written)" by (cases pw)
    show ?thesis
    proof (cases "commit s (players s @ [p]) written")
      case (Inl e)
      with Inr Some pw show ?thesis by (simp add: create_player_def route_resultI1)
    next
      case c: (Inr s1)
      from refresh_added [of "players s" p] obtain p1 where r: "refresh (players s @ [p]) p = Inr p1"
        by blast
      from commit_Inr_eq [OF c] Inr Some pw c r show ?thesis
        by (simp add: create_player_def route_resultI2 is_Event_messages)
    qed
  qed
qed

lemma route_result_update: "route_result s t (update_stats s t player_id stats)"
proof (cases "session_get (players s) player_id")
  case None
  then show ?thesis by (simp add: update_stats_missing route_resultI1)
next
  case (Some p0)
  show ?thesis
  proof (cases "fits_INTEGER (StatsBase.matches stats) \<and> fits_INTEGER (StatsBase.runs_or_goals stats)")
    case True
    then show ?thesis
      using update_stats_stored [OF Some, of stats t]
      by (simp add: route_resultI2 is_Event_messages)
  next
    case False
    then show ?thesis
      using update_stats_overflow [OF Some False, of t] by (simp add: route_resultI1)
  qed
qed

lemma route_result_delete: "route_result s t (delete_player s t player_id)"
proof (cases "session_get (players s) player_id")
  case None
  then show ?thesis by (simp add: delete_player_missing route_resultI1)
next
  case (Some p0)
  then show ?thesis
    using delete_player_stored [OF Some, of t]
    by (simp add: route_resultI2 is_Event_messages)
qed

lemma inv_step_Start:
  assumes "consistent s"
  shows "consistent (step s (Start req))"
proof -
  have route: "consistent (step s (Start req))"
    if res: "route_result s (length (tasks s)) (start s (length (tasks s)) req)"
  proof -
    obtain pc1 s1 where st: "start s (length (tasks s)) req = (pc1, s1)"
      by (cases "start s (length (tasks s)) req")
    from res [unfolded route_result_def st] obtain x rows m ret where
      "((pc1, s1) = (Finished x, s) \<and> (\<forall>v. x \<noteq> Return v)) \<or>
       (is_Event m \<and> (pc1, s1) =
          call_broadcast (s\<lparr>players := rows, trace := trace s @ [Commit rows]\<rparr>) (length (tasks s)) m ret)"
      by blast
    then show ?thesis
    proof
      assume "(pc1, s1) = (Finished x, s) \<and> (\<forall>v. x \<noteq> Return v)"
      with st inv_finish_new [OF assms, of x] show ?thesis by simp
    next
      let ?s0 = "s\<lparr>players := rows, trace := trace s @ [Commit rows]\<rparr>"
      assume a: "is_Event m \<and> (pc1, s1) = call_broadcast ?s0 (length (tasks s)) m ret"
      have "consistent ?s0"
        using inv_quiet [OF assms, where rows = rows and cs = "[rows]"] by simp
      from a have "call_broadcast ?s0 (length (tasks s)) m ret = (pc1, s1)" "is_Event m"
        by simp_all
      from inv_call_broadcast_new [OF \<open>consistent ?s0\<close> this(2), of ret pc1 s1] this(1) st
      show ?thesis by simp
    qed
  qed
  show ?thesis
  proof (cases req)
    case Websocket
    with assms show ?thesis
      by (auto simp: websocket_endpoint_def logged_def consistent_def nth_append)
  next
    case (PostPlayer data uid)
    then show ?thesis using route route_result_create [of s "length (tasks s)" data uid] by simp
  next
    case (PatchStats player_id stats)
    then show ?thesis using route route_result_update [of s "length (tasks s)" player_id stats] by simp
  next
    case (DeletePlayer player_id)
    then show ?thesis using route route_result_delete [of s "length (tasks s)" player_id] by simp
  qed
qed

lemma pc_ok_mono: "pc_ok reg pc \<Longrightarrow> set reg \<subseteq> set reg' \<Longrightarrow> pc_ok reg' pc"
  by (cases pc) auto

lemma pc_ok_idle: "pc_ok reg pc \<Longrightarrow> \<not> sending pc \<Longrightarrow> pc_ok reg' pc"
  by (cases pc) auto

lemma distinct_remove_failed: "distinct conns \<Longrightarrow> distinct (remove_failed rs conns)"
  by (induction rs arbitrary: conns) auto

lemma unsent_idle: "unsent pc \<Longrightarrow> \<not> sending pc"
  by (cases pc) auto

lemma consistent_connect:
  assumes "consistent s" "t < length (tasks s)" "unsent (tasks s ! t)"
    and that: "\<And>w. calls_to evs w = []"
  shows "consistent (case endpoint_connect (s\<lparr>trace := trace s @ evs\<rparr>) t of (pc1, s1) \<Rightarrow> s1\<lparr>tasks := (tasks s1)[t := pc1]\<rparr>)"
proof (cases "lock s")
  case None
  have idle: "\<not> sending (tasks s ! t')" if "t' < length (tasks s)" for t'
    using assms(1) None \<open>t' < length (tasks s)\<close> by (simp add: consistent_def)
  show ?thesis using assms None idle
    apply (simp add: endpoint_connect_def connect_def endpoint_connected_def logged_def Let_def)
    apply (auto simp: consistent_def nth_list_update snapshot_first_snoc is_Event_messages
       intro: pc_ok_idle)
    done
next
  case (Some t')
  show ?thesis using assms Some unsent_idle [OF assms(3)]
    apply (simp add: endpoint_connect_def connect_def endpoint_connected_def logged_def Let_def)
    apply (auto simp: consistent_def nth_list_update)
    done
qed

lemma consistent_disconnect:
  assumes "consistent s" "t < length (tasks s)" "attached (tasks s ! t)"
  shows "consistent (case endpoint_disconnect s t of (pc1, s1) \<Rightarrow> s1\<lparr>tasks := (tasks s1)[t := pc1]\<rparr>)"
proof (cases "lock s")
  case None
  have idle: "\<not> sending (tasks s ! t')" if "t' < length (tasks s)" for t'
    using assms(1) None \<open>t' < length (tasks s)\<close> by (simp add: consistent_def)
  have sub: "set (remove1 t (active_connections s)) \<subseteq> set (active_connections s)"
    by (rule set_remove1_subset)
  show ?thesis using assms None idle sub
    apply (simp add: endpoint_disconnect_def disconnect_def)
    apply (auto simp: consistent_def nth_list_update intro: pc_ok_idle)
    done
next
  case (Some t')
  have "\<not> sending (tasks s ! t)" "\<not> unsent (tasks s ! t)"
    using assms(3) by (cases "tasks s ! t"; simp)+
  then show ?thesis using assms Some
    apply (simp add: endpoint_disconnect_def disconnect_def)
    apply (auto simp: consistent_def nth_list_update)
    done
qed

lemma consistent_broadcast_locked:
  assumes "consistent s" "t < length (tasks s)" "tasks s ! t = WaitBroadcast m ret" "lock s = None"
  shows "consistent (case broadcast_locked s t m ret of (pc1, s1) \<Rightarrow> s1\<lparr>tasks := (tasks s1)[t := pc1]\<rparr>)"
proof (cases "active_connections s")
  case Nil
  with assms show ?thesis
    by (auto simp: broadcast_locked_Nil consistent_def nth_list_update)
next
  case (Cons c cs)
  with assms show ?thesis
    by (auto simp: broadcast_locked_Cons consistent_def nth_list_update snapshot_first_snoc)
qed

lemma consistent_send_next:
  assumes "consistent s" "t < length (tasks s)" "tasks s ! t = AwaitSend m ret c cs tr"
    and that: "\<And>w. calls_to evs w = []"
  shows "consistent (case send_next (s\<lparr>trace := trace s @ evs\<rparr>) m ret cs tr' of
      (pc1, s1) \<Rightarrow> s1\<lparr>tasks := (tasks s1)[t := pc1]\<rparr>)"
proof (cases cs)
  case Nil
  have lk: "lock s = Some t"
    using assms by (auto simp: consistent_def)
  have idle: "\<not> sending (tasks s ! t')" if "t' < length (tasks s)" "t' \<noteq> t" for t'
    using assms(1) lk that by (auto simp: consistent_def)
  have sub: "set (remove_failed tr' (active_connections s)) \<subseteq> set (active_connections s)"
    by (rule remove_failed_subset)
  show ?thesis using assms Nil idle sub lk
    apply simp
    apply (auto simp: consistent_def nth_list_update distinct_remove_failed intro: pc_ok_idle)
    done
next
  case (Cons c' cs')
  have lk: "lock s = Some t"
    using assms by (auto simp: consistent_def)
  have "pc_ok (active_connections s) (tasks s ! t)"
    using assms(1,2) by (simp add: consistent_def)
  then have ok: "is_Event m" "c' \<in> set (active_connections s)" "set cs' \<subseteq> set (active_connections s)"
    using assms(3) Cons by auto
  show ?thesis using assms Cons lk ok
    apply (simp add: logged_def)
    apply (auto simp: consistent_def nth_list_update snapshot_first_snoc)
    done
qed

lemma consistent_after_send:
  assumes "consistent s" "t < length (tasks s)" "tasks s ! t = AwaitSend m ret c cs tr"
  shows "consistent (case after_send s m ret c cs tr r of
      (pc1, s1) \<Rightarrow> s1\<lparr>tasks := (tasks s1)[t := pc1]\<rparr>)"
proof (cases r)
  case Done
  then show ?thesis
    using consistent_send_next [OF assms, of "[IO (SendJson c m) Done]" tr]
    by (simp add: after_send_def logged_def)
next
  case (Raised e)
  show ?thesis
  proof (cases "is_Exception e")
    case True
    with Raised show ?thesis
      using consistent_send_next [OF assms, of "[IO (SendJson c m) (Raised e)]" "tr @ [c]"]
      by (simp add: after_send_def logged_def)
  next
    case False
    have lk: "lock s = Some t"
      using assms by (auto simp: consistent_def)
    have idle: "\<not> sending (tasks s ! t')" if "t' < length (tasks s)" "t' \<noteq> t" for t'
      using assms(1) lk that by (auto simp: consistent_def)
    from False Raised assms lk idle show ?thesis
      apply (simp add: after_send_def logged_def)
      apply (auto simp: consistent_def nth_list_update)
      done
  qed
next
  case Stalled
  with assms show ?thesis
    by (simp add: after_send_def list_update_same_conv [THEN iffD2])
qed

lemma same_task: "t < length (tasks s) \<Longrightarrow> s\<lparr>tasks := (tasks s)[t := tasks s ! t]\<rparr> = s"
  by simp

lemma consistent_step_Resume:
  assumes "consistent s"
  shows "consistent (step s (Resume t r))"
proof (cases "t < length (tasks s)")
  case False
  with assms show ?thesis by simp
next
  case t: True
  have quiet: "consistent (s\<lparr>trace := trace s @ evs, tasks := (tasks s)[t := pc1]\<rparr>)"
    if "\<And>w. calls_to evs w = []" "\<not> sending pc1" "\<not> sending (tasks s ! t)"
      "pc_ok [] pc1" "unsent pc1 \<longrightarrow> unsent (tasks s ! t)" for evs pc1
    using assms t that
    by (auto simp: consistent_def nth_list_update intro: pc_ok_idle)
  show ?thesis
  proof (cases "tasks s ! t")
    case AwaitAccept
    show ?thesis
    proof (cases r)
      case Done
      from consistent_connect [OF assms t, of "[IO (Accept t) Done]"] AwaitAccept Done t
      show ?thesis by (simp add: logged_def)
    next
      case (Raised e)
      with quiet [of "[IO (Accept t) (Raised e)]" "Finished (Raise e)"] AwaitAccept t
      show ?thesis by (simp add: logged_def)
    next
      case Stalled
      with AwaitAccept t same_task [OF t] assms show ?thesis by simp
    qed
  next
    case WaitConnect
    from consistent_connect [OF assms t, of "[]"] WaitConnect t
    show ?thesis by simp
  next
    case (AwaitInit m)
    have m: "is_Snapshot m"
      using assms t AwaitInit by (auto simp: consistent_def)
    show ?thesis
    proof (cases r)
      case Done
      with quiet [of "[IO (SendJson t m) Done]" AwaitReceive] AwaitInit t
      show ?thesis by (simp add: logged_def)
    next
      case (Raised e)
      with quiet [of "[IO (SendJson t m) (Raised e)]" "Finished (Raise e)"] AwaitInit t
      show ?thesis by (simp add: logged_def)
    next
      case Stalled
      with AwaitInit t same_task [OF t] assms show ?thesis by simp
    qed
  next
    case AwaitReceive
    show ?thesis
    proof (cases r)
      case Done
      with AwaitReceive t same_task [OF t] assms show ?thesis by simp
    next
      case (Raised e)
      show ?thesis
      proof (cases "e = WebSocketDisconnect")
        case True
        from consistent_disconnect [OF assms t] AwaitReceive Raised True t
        show ?thesis by simp
      next
        case False
        with quiet [of "[]" "Finished (Raise e)"] AwaitReceive Raised t
        show ?thesis by simp
      qed
    next
      case Stalled
      with AwaitReceive t same_task [OF t] assms show ?thesis by simp
    qed
  next
    case WaitDisconnect
    from consistent_disconnect [OF assms t] WaitDisconnect t
    show ?thesis by simp
  next
    case (WaitBroadcast m ret)
    show ?thesis
    proof (cases "lock s")
      case None
      from consistent_broadcast_locked [OF assms t WaitBroadcast None] WaitBroadcast None t
      show ?thesis by simp
    next
      case (Some t')
      with WaitBroadcast t same_task [OF t] assms show ?thesis by simp
    qed
  next
    case (AwaitSend m ret c cs tr)
    from consistent_after_send [OF assms t AwaitSend, of r] AwaitSend t
    show ?thesis by simp
  next
    case (Finished x)
    with t same_task [OF t] assms show ?thesis by simp
  qed
qed

lemma consistent_initial: "consistent (initial rows)"
  by (simp add: consistent_def initial_def)

lemma consistent_step: "consistent s \<Longrightarrow> consistent (step s a)"
  by (cases a) (simp_all only: inv_step_Start consistent_step_Resume)

lemma consistent_exec: "consistent s \<Longrightarrow> consistent (exec s sched)"
  by (induction sched arbitrary: s) (simp_all add: consistent_step)

lemma remove1_absent: "x \<notin> set xs \<Longrightarrow> remove1 x xs = xs"
  by (induction xs) auto

lemma step_cases [consumes 1, case_names skip opened refused committed_wait committed_none
    committed_send accepted_wait connected accept_failed init_sent init_failed closed_wait
    disconnected receive_failed pass_none pass_send sent_next sent_last cancelled]:
  assumes "consistent s"
  obtains "step s a = s"
  | "a = Start Websocket"
    "step s a = s\<lparr>trace := trace s @ [Call (Accept (length (tasks s)))],
                  tasks := tasks s @ [AwaitAccept]\<rparr>"
  | req x where "a = Start req" "req \<noteq> Websocket" "\<forall>v. x \<noteq> Return v"
    "step s a = s\<lparr>tasks := tasks s @ [Finished x]\<rparr>"
  | req rows m ret t' where "a = Start req" "req \<noteq> Websocket" "is_Event m" "lock s = Some t'"
    "step s a = s\<lparr>players := rows, trace := trace s @ [Commit rows, Broadcast m],
                  tasks := tasks s @ [WaitBroadcast m ret]\<rparr>"
  | req rows m ret where "a = Start req" "req \<noteq> Websocket" "is_Event m" "lock s = None"
    "active_connections s = []"
    "step s a = s\<lparr>players := rows, trace := trace s @ [Commit rows, Broadcast m],
                  tasks := tasks s @ [Finished (Return ret)]\<rparr>"
  | req rows m ret c cs where "a = Start req" "req \<noteq> Websocket" "is_Event m" "lock s = None"
    "active_connections s = c # cs"
    "step s a = s\<lparr>players := rows,
                  trace := trace s @ [Commit rows, Broadcast m, Call (SendJson c m)],
                  lock := Some (length (tasks s)),
                  tasks := tasks s @ [AwaitSend m ret c cs []]\<rparr>"
  | t t' where "a = Resume t Done" "t < length (tasks s)" "tasks s ! t = AwaitAccept"
    "lock s = Some t'"
    "step s a = s\<lparr>trace := trace s @ [IO (Accept t) Done], tasks := (tasks s)[t := WaitConnect]\<rparr>"
  | t r evs where "a = Resume t r" "t < length (tasks s)" "unsent (tasks s ! t)" "lock s = None"
    "evs = [] \<or> evs = [IO (Accept t) Done]"
    "step s a = s\<lparr>trace := trace s @ evs @ [Call (SendJson t (init_message (players s)))],
                  active_connections := active_connections s @ [t],
                  tasks := (tasks s)[t := AwaitInit (init_message (players s))]\<rparr>"
  | t e where "a = Resume t (Raised e)" "t < length (tasks s)" "tasks s ! t = AwaitAccept"
    "step s a = s\<lparr>trace := trace s @ [IO (Accept t) (Raised e)],
                  tasks := (tasks s)[t := Finished (Raise e)]\<rparr>"
  | t m where "a = Resume t Done" "t < length (tasks s)" "tasks s ! t = AwaitInit m"
    "is_Snapshot m"
    "step s a = s\<lparr>trace := trace s @ [IO (SendJson t m) Done],
                  tasks := (tasks s)[t := AwaitReceive]\<rparr>"
  | t m e where "a = Resume t (Raised e)" "t < length (tasks s)" "tasks s ! t = AwaitInit m"
    "step s a = s\<lparr>trace := trace s @ [IO (SendJson t m) (Raised e)],
                  tasks := (tasks s)[t := Finished (Raise e)]\<rparr>"
  | t t' where "a = Resume t (Raised WebSocketDisconnect)" "t < length (tasks s)"
    "tasks s ! t = AwaitReceive" "lock s = Some t'"
    "step s a = s\<lparr>tasks := (tasks s)[t := WaitDisconnect]\<rparr>"
  | t r where "a = Resume t r" "t < length (tasks s)" "attached (tasks s ! t)" "lock s = None"
    "step s a = s\<lparr>active_connections := remove1 t (active_connections s),
                  tasks := (tasks s)[t := Finished (Return JNull)]\<rparr>"
  | t e where "a = Resume t (Raised e)" "t < length (tasks s)" "tasks s ! t = AwaitReceive"
    "e \<noteq> WebSocketDisconnect"
    "step s a = s\<lparr>tasks := (tasks s)[t := Finished (Raise e)]\<rparr>"
  | t r m ret where "a = Resume t r" "t < length (tasks s)" "tasks s ! t = WaitBroadcast m ret"
    "lock s = None" "active_connections s = []"
    "step s a = s\<lparr>tasks := (tasks s)[t := Finished (Return ret)]\<rparr>"
  | t r m ret c cs where "a = Resume t r" "t < length (tasks s)"
    "tasks s ! t = WaitBroadcast m ret" "is_Event m" "lock s = None"
    "active_connections s = c # cs"
    "step s a = s\<lparr>trace := trace s @ [Call (SendJson c m)], lock := Some t,
                  tasks := (tasks s)[t := AwaitSend m ret c cs []]\<rparr>"
  | t r m ret c c' cs' tr where "a = Resume t r" "t < length (tasks s)"
    "tasks s ! t = AwaitSend m ret c (c' # cs') tr" "completed r" "lock s = Some t"
    "is_Event m" "c' \<in> set (active_connections s)"
    "step s a = s\<lparr>trace := trace s @ [IO (SendJson c m) r, Call (SendJson c' m)],
                  tasks := (tasks s)[t := AwaitSend m ret c' cs'
                                       (if r = Done then tr else tr @ [c])]\<rparr>"
  | t r m ret c tr where "a = Resume t r" "t < length (tasks s)"
    "tasks s ! t = AwaitSend m ret c [] tr" "completed r" "lock s = Some t" "is_Event m"
    "step s a = s\<lparr>trace := trace s @ [IO (SendJson c m) r],
                  active_connections :=
                    remove_failed (if r = Done then tr else tr @ [c]) (active_connections s),
                  lock := None,
                  tasks := (tasks s)[t := Finished (Return ret)]\<rparr>"
  | t e m ret c cs tr where "a = Resume t (Raised e)" "t < length (tasks s)"
    "tasks s ! t = AwaitSend m ret c cs tr" "\<not> is_Exception e" "lock s = Some t"
    "step s a = s\<lparr>trace := trace s @ [IO (SendJson c m) (Raised e)], lock := None,
                  tasks := (tasks s)[t := Finished (Raise e)]\<rparr>"
proof -
  note rule = that
  show ?thesis
  proof (cases a)
  case (Start req)
  let ?n = "length (tasks s)"
  show ?thesis
  proof (cases "req = Websocket")
    case True
    with Start show ?thesis
      by (intro rule(2)) (simp_all add: websocket_endpoint_def logged_def)
  next
    case False
    have "route_result s ?n (start s ?n req)"
      using False route_result_create route_result_update route_result_delete
      by (cases req) simp_all
    then obtain x rows m ret where
      "(start s ?n req = (Finished x, s) \<and> (\<forall>v. x \<noteq> Return v)) \<or>
       (is_Event m \<and> start s ?n req =
          call_broadcast (s\<lparr>players := rows, trace := trace s @ [Commit rows]\<rparr>) ?n m ret)"
      unfolding route_result_def by blast
    then show ?thesis
    proof
      assume "start s ?n req = (Finished x, s) \<and> (\<forall>v. x \<noteq> Return v)"
      with Start False show ?thesis
        by (intro rule(3) [where req = req and x = x]) simp_all
    next
      assume a: "is_Event m \<and> start s ?n req =
          call_broadcast (s\<lparr>players := rows, trace := trace s @ [Commit rows]\<rparr>) ?n m ret"
      show ?thesis
      proof (cases "lock s")
        case (Some t')
        with a Start False show ?thesis
          by (intro rule(4) [where req = req and rows = rows and m = m and ret = ret and t' = t']) (simp_all add: call_broadcast_held)
      next
        case None
        show ?thesis
        proof (cases "active_connections s")
          case Nil
          with a Start False None show ?thesis
            by (intro rule(5) [where req = req and rows = rows and m = m and ret = ret])
              (simp_all add: call_broadcast_free broadcast_locked_Nil)
        next
          case (Cons c cs)
          with a Start False None show ?thesis
            by (intro rule(6) [where req = req and rows = rows and m = m and ret = ret and c = c and cs = cs])
              (simp_all add: call_broadcast_free broadcast_locked_Cons)
        qed
      qed
    qed
  qed
next
  case (Resume t r)
  show ?thesis
  proof (cases "t < length (tasks s)")
    case False
    with Resume show ?thesis by (intro rule(1)) simp
  next
    case t: True
    have same: ?thesis if "resume s t (tasks s ! t) r = (tasks s ! t, s)"
      using that Resume t by (intro rule(1)) simp
    have connect: ?thesis
      if "lock s = None" "unsent (tasks s ! t)" "evs = [] \<or> evs = [IO (Accept t) Done]"
        "resume s t (tasks s ! t) r = endpoint_connect (s\<lparr>trace := trace s @ evs\<rparr>) t" for evs
      using that Resume t
      by (intro rule(8) [where t = t and r = r and evs = evs])
        (simp_all add: endpoint_connect_def connect_def endpoint_connected_def logged_def Let_def)
    have connect_wait: "endpoint_connect s1 t = (WaitConnect, s1)" if "lock s1 = Some t'" for s1 :: system and t'
      using that by (simp add: endpoint_connect_def connect_def)
    have disconnect: ?thesis
      if "lock s = None" "attached (tasks s ! t)"
        "resume s t (tasks s ! t) r = endpoint_disconnect s t"
      using that Resume t
      by (intro rule(13) [where t = t and r = r])
        (auto simp: endpoint_disconnect_def disconnect_def remove1_absent)
    have disconnect_wait: "endpoint_disconnect s t = (WaitDisconnect, s)" if "lock s = Some t'" for t'
      using that by (simp add: endpoint_disconnect_def disconnect_def)
    have ok: "pc_ok (active_connections s) (tasks s ! t)"
      and lk: "sending (tasks s ! t) \<longleftrightarrow> lock s = Some t"
      using assms t by (simp_all add: consistent_def)
    show ?thesis
    proof (cases "tasks s ! t")
      case AwaitAccept
      show ?thesis
      proof (cases r)
        case Done
        show ?thesis
        proof (cases "lock s")
          case None
          with AwaitAccept Done show ?thesis
            by (intro connect [of "[IO (Accept t) Done]"]) (simp_all add: logged_def)
        next
          case (Some t')
          with AwaitAccept Done Resume t show ?thesis
            by (intro rule(7) [where t = t and t' = t']) (simp_all add: logged_def connect_wait)
        qed
      next
        case (Raised e)
        with AwaitAccept Resume t show ?thesis
          by (intro rule(9) [where t = t and e = e]) (simp_all add: logged_def)
      next
        case Stalled
        with AwaitAccept show ?thesis by (intro same) simp
      qed
    next
      case WaitConnect
      show ?thesis
      proof (cases "lock s")
        case None
        with WaitConnect show ?thesis
          by (intro connect [of "[]"]) simp_all
      next
        case (Some t')
        with WaitConnect show ?thesis
          by (intro same) (simp add: connect_wait)
      qed
    next
      case (AwaitInit m)
      show ?thesis
      proof (cases r)
        case Done
        with AwaitInit Resume t ok show ?thesis
          by (intro rule(10) [where t = t and m = m]) (simp_all add: logged_def)
      next
        case (Raised e)
        with AwaitInit Resume t show ?thesis
          by (intro rule(11) [where t = t and m = m and e = e]) (simp_all add: logged_def)
      next
        case Stalled
        with AwaitInit show ?thesis by (intro same) simp
      qed
    next
      case AwaitReceive
      show ?thesis
      proof (cases r)
        case Done
        with AwaitReceive show ?thesis by (intro same) simp
      next
        case (Raised e)
        show ?thesis
        proof (cases "e = WebSocketDisconnect")
          case True
          show ?thesis
          proof (cases "lock s")
            case None
            with AwaitReceive Raised True show ?thesis
              by (intro disconnect) simp_all
          next
            case (Some t')
            with AwaitReceive Raised True Resume t show ?thesis
              by (intro rule(12) [where t = t and t' = t']) (simp_all add: disconnect_wait)
          qed
        next
          case False
          with AwaitReceive Raised Resume t show ?thesis
            by (intro rule(14) [where t = t and e = e]) simp_all
        qed
      next
        case Stalled
        with AwaitReceive show ?thesis by (intro same) simp
      qed
    next
      case WaitDisconnect
      show ?thesis
      proof (cases "lock s")
        case None
        with WaitDisconnect show ?thesis
          by (intro disconnect) simp_all
      next
        case (Some t')
        with WaitDisconnect show ?thesis
          by (intro same) (simp add: disconnect_wait)
      qed
    next
      case (WaitBroadcast m ret)
      show ?thesis
      proof (cases "lock s")
        case (Some t')
        with WaitBroadcast show ?thesis by (intro same) simp
      next
        case None
        show ?thesis
        proof (cases "active_connections s")
          case Nil
          with WaitBroadcast None Resume t show ?thesis
            by (intro rule(15) [where t = t and r = r and m = m and ret = ret]) (simp_all add: broadcast_locked_Nil)
        next
          case (Cons c cs)
          with WaitBroadcast None Resume t ok show ?thesis
            by (intro rule(16) [where t = t and r = r and m = m and ret = ret and c = c and cs = cs]) (simp_all add: broadcast_locked_Cons)
        qed
      qed
    next
      case (AwaitSend m ret c cs tr)
      have lock: "lock s = Some t" and m: "is_Event m" and sub: "set cs \<subseteq> set (active_connections s)"
        using ok lk AwaitSend by simp_all
      show ?thesis
      proof (cases "completed r")
        case True
        then have r: "r = Done \<or> (\<exists>e. r = Raised e \<and> is_Exception e)"
          by (cases r) simp_all
        show ?thesis
        proof (cases cs)
          case Nil
          with AwaitSend Resume t True lock m r show ?thesis
            by (intro rule(18) [where t = t and r = r and m = m and ret = ret and c = c and tr = tr])
              (auto simp: after_send_def logged_def)
        next
          case (Cons c' cs')
          with AwaitSend Resume t True lock m sub r show ?thesis
            by (intro rule(17) [where t = t and r = r and m = m and ret = ret and c = c and c' = c' and cs' = cs' and tr = tr])
              (auto simp: after_send_def logged_def)
        qed
      next
        case False
        show ?thesis
        proof (cases r)
          case Done
          with False show ?thesis by simp
        next
          case (Raised e)
          with False AwaitSend Resume t lock show ?thesis
            by (intro rule(19) [where t = t and e = e and m = m and ret = ret and c = c and cs = cs and tr = tr]) (simp_all add: after_send_def logged_def)
        next
          case Stalled
          with AwaitSend show ?thesis by (intro same) (simp add: after_send_def)
        qed
      qed
    next
      case (Finished x)
      then show ?thesis by (intro same) simp
    qed
  qed
qed
qed

lemma snapshots_single [simp]:
  "snapshots [IO (SendJson c m) Done] w = (if c = w \<and> is_Snapshot m then [m] else [])"
  "snapshots [IO (SendJson c m) (Raised e)] w = []"
  "snapshots [IO (SendJson c m) Stalled] w = []"
  "snapshots [IO (Accept c) r] w = []"
  "snapshots [Call a] w = []"
  "snapshots [Commit rows] w = []"
  "snapshots [Broadcast m] w = []"
  "snapshots [] w = []"
  by (simp_all add: snapshots_def)

lemma snapshots_Cons2 [simp]: "snapshots (ev # ev' # evs) w = snapshots [ev] w @ snapshots (ev' # evs) w"
  using snapshots_append [of "[ev]" "ev' # evs" w] by simp





lemma trace_step:
  assumes "consistent s"
  shows "\<exists>evs. trace (step s a) = trace s @ evs"
  using assms by (cases rule: step_cases [where a = a]) auto

lemma trace_exec: "consistent s \<Longrightarrow> \<exists>evs. trace (exec s sched) = trace s @ evs"
proof (induction sched arbitrary: s)
  case Nil
  then show ?case by simp
next
  case (Cons a sched)
  from trace_step [OF Cons.prems, of a] obtain evs1 where "trace (step s a) = trace s @ evs1"
    by blast
  moreover from Cons.IH [OF consistent_step [OF Cons.prems], of a] obtain evs2 where
    "trace (exec (step s a) sched) = trace (step s a) @ evs2"
    by blast
  ultimately show ?case by simp
qed

lemma send_calls_calls_to: "w \<in> set (send_calls evs) \<longleftrightarrow> calls_to evs w \<noteq> []"
  by (induction evs w rule: calls_to.induct) auto

lemma gone_step:
  assumes "consistent s" "w \<notin> set (active_connections s)" "calls_to (trace s) w \<noteq> []"
  shows "w \<notin> set (active_connections (step s a)) \<and>
     calls_to (trace (step s a)) w = calls_to (trace s) w"
  using assms(1)
proof (cases rule: step_cases [where a = a])
  case (connected t r evs)
  have "calls_to (trace s) t = []"
    using assms(1) connected by (simp add: consistent_def)
  with connected assms show ?thesis by auto
next
  case (disconnected t r)
  then show ?thesis using assms set_remove1_subset [of t "active_connections s"] by auto
next
  case (sent_last t r m ret c tr)
  then show ?thesis
    using assms remove_failed_subset [of "if r = Done then tr else tr @ [c]" "active_connections s"]
    by auto
qed (use assms in auto)

lemma gone_exec:
  assumes "consistent s" "w \<notin> set (active_connections s)" "calls_to (trace s) w \<noteq> []"
  shows "w \<notin> set (active_connections (exec s sched)) \<and>
     calls_to (trace (exec s sched)) w = calls_to (trace s) w"
  using assms
proof (induction sched arbitrary: s)
  case Nil
  then show ?case by simp
next
  case (Cons a sched)
  from gone_step [OF Cons.prems, of a] Cons.IH [OF consistent_step [OF Cons.prems(1)], of a]
    Cons.prems(3)
  show ?case by simp
qed

lemma returned_Finished [simp]: "returned (Finished x) \<longleftrightarrow> (\<exists>v. x = Return v)"
  by (cases x) auto

lemma pending_step:
  assumes "consistent s" "t < length (tasks s)" "sending (tasks s ! t)"
    and "\<forall>r. a = Resume t r \<longrightarrow> r = Stalled"
  shows "tasks (step s a) ! t = tasks s ! t \<and> length (tasks s) \<le> length (tasks (step s a)) \<and>
     lock (step s a) = Some t \<and> active_connections (step s a) = active_connections s \<and>
     send_calls (log_since s (step s a)) = [] \<and>
     (\<forall>t' < length (tasks (step s a)). returned (tasks (step s a) ! t') \<longrightarrow>
        t' < length (tasks s) \<and> returned (tasks s ! t'))"
proof -
  have lk: "lock s = Some t"
    using assms(1-3) by (simp add: consistent_def)
  have same: "t' = t" if "t' < length (tasks s)" "sending (tasks s ! t')" for t'
    using assms(1) lk that by (simp add: consistent_def)
  from assms(1) show ?thesis
  proof (cases rule: step_cases [where a = a])
    case skip
    then show ?thesis using lk by (simp add: log_since_def)
  next
    case (sent_next t' r m ret c c' cs' tr)
    with same [of t'] assms(4) show ?thesis by auto
  next
    case (sent_last t' r m ret c tr)
    with same [of t'] assms(4) show ?thesis by auto
  next
    case (cancelled t' e m ret c cs tr)
    with same [of t'] assms(4) show ?thesis by auto
  qed (use lk assms(2,3) in \<open>auto simp: log_since_def nth_append nth_list_update\<close>)
qed








lemma log_since_trans:
  "trace s1 = trace s @ evs1 \<Longrightarrow> trace s2 = trace s1 @ evs2 \<Longrightarrow>
   log_since s s2 = log_since s s1 @ log_since s1 s2"
  by (simp add: log_since_def)

lemma pending_exec:
  assumes "consistent s" "t < length (tasks s)" "sending (tasks s ! t)"
    and "\<forall>r. Resume t r \<in> set sched \<longrightarrow> r = Stalled"
  shows "tasks (exec s sched) ! t = tasks s ! t \<and>
     length (tasks s) \<le> length (tasks (exec s sched)) \<and>
     lock (exec s sched) = Some t \<and>
     active_connections (exec s sched) = active_connections s \<and>
     send_calls (log_since s (exec s sched)) = [] \<and>
     (\<forall>t' < length (tasks (exec s sched)). returned (tasks (exec s sched) ! t') \<longrightarrow>
        t' < length (tasks s) \<and> returned (tasks s ! t'))"
  using assms
proof (induction sched arbitrary: s)
  case Nil
  then show ?case by (simp add: consistent_def log_since_def)
next
  case (Cons a sched)
  let ?s1 = "step s a"
  have a: "\<forall>r. a = Resume t r \<longrightarrow> r = Stalled"
    and rest: "\<forall>r. Resume t r \<in> set sched \<longrightarrow> r = Stalled"
    using Cons.prems(4) by auto
  note one = pending_step [OF Cons.prems(1-3) a]
  have c1: "consistent ?s1"
    using Cons.prems(1) by (rule consistent_step)
  have t1: "t < length (tasks ?s1)" "sending (tasks ?s1 ! t)"
    using one Cons.prems(2,3) by simp_all
  note more = Cons.IH [OF c1 t1 rest]
  from trace_step [OF Cons.prems(1), of a] obtain evs1 where e1: "trace ?s1 = trace s @ evs1"
    by blast
  from trace_exec [OF c1, of sched] obtain evs2 where e2: "trace (exec ?s1 sched) = trace ?s1 @ evs2"
    by blast
  have "send_calls (log_since s (exec ?s1 sched)) = []"
    using one more by (simp add: log_since_trans [OF e1 e2])
  moreover have "t' < length (tasks s) \<and> returned (tasks s ! t')"
    if "t' < length (tasks (exec ?s1 sched))" "returned (tasks (exec ?s1 sched) ! t')" for t'
    using that one more by blast
  ultimately show ?case
    using one more by simp
qed






text \<open>For running the definitions on the example inputs.\<close>

lemmas pass_defs = perform_def broadcast_def send_all.simps Let_def

lemmas run_defs = initial_def logged_def commit_def fits_INTEGER_def refresh_def session_get_def
  connect_def disconnect_def after_send_def broadcast_locked_def call_broadcast_def
  create_player_def update_stats_def delete_player_def player_args_def new_Player_def
  dict_get_def init_message_def player_to_dict_def websocket_endpoint_def
  endpoint_connected_def endpoint_connect_def endpoint_disconnect_def Let_def

lemmas example_defs = st_three_def st_start_def kohli_def messi_def msg_deleted_def
  new_stats_def two_listeners_def three_listeners_def

section \<open>The claims\<close>

subsection \<open>C1: one snapshot, before any event\<close>




subsection \<open>C2: broadcast does not raise\<close>

text \<open>
  C2. For every message and every registry, whichever sends of the pass raise an exception
  (one deriving from \<^verbatim>\<open>Exception\<close>, which is what a failing channel raises), \<open>broadcast\<close>
  raises nothing to its caller: it returns, or it is still waiting for a send; and it
  returns when every send completes.
\<close>

theorem broadcast_never_raises:
  assumes "raises_Exceptions orc"
  shows "(fst (broadcast orc s message) = Return () \<or> fst (broadcast orc s message) = Stall) \<and>
     (never_stalls orc \<longrightarrow> fst (broadcast orc s message) = Return ())"
proof -
  let ?loop = "send_all orc message (active_connections s) [] (s\<lparr>trace := trace s @ [Broadcast message]\<rparr>)"
  have "fst ?loop \<noteq> Raise e" for e
    using assms by (rule send_all_no_Raise)
  moreover have "fst ?loop \<noteq> Unmodelled"
    by (rule send_all_modelled)
  ultimately have "fst (broadcast orc s message) = Return () \<or> fst (broadcast orc s message) = Stall"
    unfolding broadcast_fst by (cases "fst ?loop") auto
  moreover have "fst (broadcast orc s message) = Return ()" if "never_stalls orc"
    using broadcast_Return [OF assms that, of s message] by auto
  ultimately show ?thesis by blast
qed

theorem broadcast_never_raises_witness:
  "raises_Exceptions env_closed2 \<and> never_stalls env_closed2 \<and>
   env_closed2 [] (SendJson 2 msg_deleted) = Raised WebSocketDisconnect \<and>
   fst (broadcast env_closed2 st_three msg_deleted) = Return ()"
proof -
  have h1: "raises_Exceptions env_closed2"
    unfolding raises_Exceptions_def
  proof (intro allI impI)
    fix tr a e
    assume "env_closed2 tr a = Raised e"
    then show "is_Exception e" by (cases a) (auto split: if_splits)
  qed
  have h2: "never_stalls env_closed2"
    unfolding never_stalls_def
  proof (intro allI)
    fix tr a
    show "env_closed2 tr a \<noteq> Stalled" by (cases a) auto
  qed
  from broadcast_never_raises [OF h1, of st_three msg_deleted] h1 h2 show ?thesis
    by simp
qed

subsection \<open>C3: a failed listener is removed and not sent to again\<close>

text \<open>
  C3, as the claim states it, fails: the failed listeners are removed after the loop, and
  the loop does not always end. On the example the send to channel 1 fails, and the task
  is cancelled while it awaits the send to channel 2 (\<^verbatim>\<open>CancelledError\<close> is not an
  \<^verbatim>\<open>Exception\<close>): \<open>broadcast\<close> raises, channel 3 is not tried, channel 1 is still
  registered, and the next pass sends to channel 1 again.
\<close>

theorem failed_listener_kept_counterexample:
  "broadcast env_fail1_cancel2 st_three msg_deleted =
     (Raise CancelledError,
      \<lparr>players = [kohli, messi], active_connections = [1, 2, 3],
       trace = [Broadcast msg_deleted, IO (SendJson 1 msg_deleted) (Raised OSError),
                IO (SendJson 2 msg_deleted) (Raised CancelledError)]\<rparr>) \<and>
   attempted (log_since (snd (broadcast env_fail1_cancel2 st_three msg_deleted))
     (snd (broadcast env_closed2 (snd (broadcast env_fail1_cancel2 st_three msg_deleted))
        msg_deleted))) = [1, 2, 3]"
  by (simp add: pass_defs st_three_def log_since_def)

text \<open>
  C3, amended. Take a pass of \<open>broadcast\<close> over a registry that holds no channel twice, in
  which the send of the event to \<open>w\<close> raises.
  \<^item> If the pass returns, then it has tried every listener of the registry, in order, the
    registry it leaves holds exactly the listeners whose send succeeded, in their order,
    and \<open>w\<close> is not among them.
  \<^item> If the pass does not return (a send does not complete, or raises what is not an
    \<^verbatim>\<open>Exception\<close>), the registry is as it was.
  \<^item> A pass that starts from a registry without \<open>w\<close> does not send to \<open>w\<close>.
  \<^item> In the running service, a websocket that was registered and no longer is, is never
    registered again, and \<^verbatim>\<open>send_json\<close> is never called on it again.
\<close>

theorem failed_listener_removed:
  fixes s s' s_l :: state
  assumes reg: "distinct (active_connections s)"
    and pass: "broadcast orc s message = (r, s')"
    and fail: "IO (SendJson w message) (Raised e) \<in> set (log_since s s')"
  shows "(r = Return () \<longrightarrow>
        attempted (log_since s s') = active_connections s \<and>
        active_connections s' =
          filter (\<lambda>c. IO (SendJson c message) Done \<in> set (log_since s s')) (active_connections s) \<and>
        w \<notin> set (active_connections s')) \<and>
     (r \<noteq> Return () \<longrightarrow> active_connections s' = active_connections s) \<and>
     (w \<notin> set (active_connections s_l) \<longrightarrow>
        w \<notin> set (attempted (log_since s_l (snd (broadcast orc_l s_l message_l))))) \<and>
     (w \<in> set (active_connections (exec (initial rows) sched_a)) \<and>
      w \<notin> set (active_connections (exec (exec (initial rows) sched_a) sched_b)) \<longrightarrow>
        w \<notin> set (active_connections (exec (exec (exec (initial rows) sched_a) sched_b) sched_c)) \<and>
        w \<notin> set (send_calls (log_since (exec (exec (initial rows) sched_a) sched_b)
                     (exec (exec (exec (initial rows) sched_a) sched_b) sched_c))))"
proof (intro conjI impI)
  let ?conns = "active_connections s"
  assume "r = Return ()"
  with broadcast_returned [of orc s message s'] pass obtain outs where
    len: "length outs = length ?conns"
    and s': "s' = s\<lparr>trace := trace s @ Broadcast message # sends message ?conns outs,
                  active_connections := remove_failed (failed ?conns outs) ?conns\<rparr>"
    by auto
  have log: "log_since s s' = Broadcast message # sends message ?conns outs"
    by (rule log_since_append) (simp add: s')
  have kept: "active_connections s' = filter (\<lambda>c. c \<notin> set (failed ?conns outs)) ?conns"
    using reg by (simp add: s' remove_failed_distinct)
  have "w \<in> set (failed ?conns outs)"
    using fail by (auto simp: log intro: sends_Raised_failed)
  then show "w \<notin> set (active_connections s')"
    by (simp add: kept)
  have "filter (\<lambda>c. c \<notin> set (failed ?conns outs)) ?conns =
      filter (\<lambda>c. IO (SendJson c message) Done \<in> set (log_since s s')) ?conns"
    using kept_iff_Done [OF len reg] by (intro filter_cong) (auto simp: log)
  with kept show "active_connections s' =
      filter (\<lambda>c. IO (SendJson c message) Done \<in> set (log_since s s')) ?conns"
    by simp
  show "attempted (log_since s s') = ?conns"
    using len by (simp add: log attempted_sends)
next
  assume "r \<noteq> Return ()"
  with pass show "active_connections s' = active_connections s"
    by (rule broadcast_not_returned)
next
  assume "w \<notin> set (active_connections s_l)"
  moreover have "set (attempted (log_since s_l (snd (broadcast orc_l s_l message_l)))) \<subseteq>
      set (active_connections s_l)"
    using broadcast_attempted [of s_l orc_l message_l] set_take_subset by metis
  ultimately show "w \<notin> set (attempted (log_since s_l (snd (broadcast orc_l s_l message_l))))"
    by blast
next
  let ?s1 = "exec (initial rows) sched_a"
  let ?s_l = "exec ?s1 sched_b"
  let ?s3 = "exec ?s_l sched_c"
  assume w: "w \<in> set (active_connections ?s1) \<and> w \<notin> set (active_connections ?s_l)"
  have c1: "consistent ?s1"
    by (intro consistent_exec consistent_initial)
  then have c2: "consistent ?s_l"
    by (rule consistent_exec)
  from c1 w have "calls_to (trace ?s1) w \<noteq> []"
    by (simp add: consistent_def)
  moreover from trace_exec [OF c1, of sched_b] obtain evs where "trace ?s_l = trace ?s1 @ evs"
    by blast
  ultimately have called: "calls_to (trace ?s_l) w \<noteq> []"
    by simp
  from gone_exec [OF c2 _ called, of sched_c] w
  have gone: "w \<notin> set (active_connections ?s3)" "calls_to (trace ?s3) w = calls_to (trace ?s_l) w"
    by simp_all
  from trace_exec [OF c2, of sched_c] obtain evs3 where evs3: "trace ?s3 = trace ?s_l @ evs3"
    by blast
  with gone(2) have "calls_to evs3 w = []"
    by simp
  then have "w \<notin> set (send_calls evs3)"
    by (simp add: send_calls_calls_to)
  moreover have "log_since ?s_l ?s3 = evs3"
    using evs3 by (rule log_since_append)
  ultimately show "w \<notin> set (active_connections ?s3)"
    "w \<notin> set (send_calls (log_since ?s_l ?s3))"
    using gone(1) by simp_all
qed

theorem failed_listener_removed_witness:
  "distinct (active_connections st_three) \<and>
   IO (SendJson 2 msg_deleted) (Raised WebSocketDisconnect)
     \<in> set (log_since st_three (snd (broadcast env_closed2 st_three msg_deleted))) \<and>
   fst (broadcast env_closed2 st_three msg_deleted) = Return () \<and>
   attempted (log_since st_three (snd (broadcast env_closed2 st_three msg_deleted))) = [1, 2, 3] \<and>
   active_connections (snd (broadcast env_closed2 st_three msg_deleted)) = [1, 3] \<and>
   2 \<notin> set (attempted (log_since (snd (broadcast env_closed2 st_three msg_deleted))
     (snd (broadcast env_closed2 (snd (broadcast env_closed2 st_three msg_deleted)) msg_deleted)))) \<and>
   2 \<in> set (active_connections (exec (initial [kohli, messi]) three_listeners)) \<and>
   2 \<notin> set (active_connections (exec (exec (initial [kohli, messi]) three_listeners)
      [Start (DeletePlayer ''p1''), Resume 3 Done, Resume 3 Done, Resume 3 (Raised OSError)])) \<and>
   2 \<notin> set (send_calls (log_since
      (exec (exec (initial [kohli, messi]) three_listeners)
         [Start (DeletePlayer ''p1''), Resume 3 Done, Resume 3 Done, Resume 3 (Raised OSError)])
      (exec (exec (exec (initial [kohli, messi]) three_listeners)
         [Start (DeletePlayer ''p1''), Resume 3 Done, Resume 3 Done, Resume 3 (Raised OSError)])
         [Start (PatchStats ''p2'' new_stats), Resume 4 Done, Resume 4 Done])))"
proof -
  let ?s' = "snd (broadcast env_closed2 st_three msg_deleted)"
  let ?s1 = "exec (initial [kohli, messi]) three_listeners"
  let ?s_l = "exec ?s1 [Start (DeletePlayer ''p1''), Resume 3 Done, Resume 3 Done,
      Resume 3 (Raised OSError)]"
  have h1: "distinct (active_connections st_three)"
    by (simp add: st_three_def)
  have h2: "broadcast env_closed2 st_three msg_deleted =
      (fst (broadcast env_closed2 st_three msg_deleted), ?s')"
    by simp
  have h3: "IO (SendJson 2 msg_deleted) (Raised WebSocketDisconnect) \<in> set (log_since st_three ?s')"
    by (simp add: log_since_def pass_defs st_three_def)
  have h4: "fst (broadcast env_closed2 st_three msg_deleted) = Return ()"
    by (simp add: pass_defs st_three_def)
  have kept: "active_connections ?s' = [1, 3]"
    by (simp add: pass_defs st_three_def)
  have h5: "2 \<in> set (active_connections ?s1)"
    by (simp add: run_defs example_defs)
  have h6: "2 \<notin> set (active_connections ?s_l)"
    by (simp add: run_defs example_defs)
  from failed_listener_removed [OF h1 h2 h3, where s_l = ?s' and rows = "[kohli, messi]"
      and sched_a = three_listeners
      and sched_b = "[Start (DeletePlayer ''p1''), Resume 3 Done, Resume 3 Done,
        Resume 3 (Raised OSError)]"
      and sched_c = "[Start (PatchStats ''p2'' new_stats), Resume 4 Done, Resume 4 Done]"
      and orc_l = env_closed2 and message_l = msg_deleted]
  show ?thesis
    using h1 h3 h4 h5 h6 kept by (simp add: st_three_def del: exec.simps step.simps)
qed

subsection \<open>C4: the pass runs over the registry as it was at its start\<close>




subsection \<open>C5: a snapshot that cannot be sent\<close>

text \<open>
  C5. The claim: when the init message cannot be sent, the listener is detached at once
  and never gets an event. The code sends the init message outside its \<^verbatim>\<open>try\<close>, so the
  exception leaves the endpoint with the websocket still registered. On the example,
  websocket 0 is accepted and registered, and the send of its init message raises: the
  endpoint raises, the registry holds 0 afterwards, and the next change of the table calls
  \<^verbatim>\<open>send_json\<close> on 0. If that send raises too, \<open>broadcast\<close> removes 0 then; if it
  succeeds, 0 stays registered and has been handed an event, having got no snapshot.
\<close>

theorem failed_snapshot_stays_registered:
  "exec st_start [Start Websocket, Resume 0 Done, Resume 0 (Raised WebSocketDisconnect)] =
     \<lparr>players = [kohli, messi], active_connections = [0],
      trace = [Call (Accept 0), IO (Accept 0) Done,
               Call (SendJson 0 (init_message [kohli, messi])),
               IO (SendJson 0 (init_message [kohli, messi])) (Raised WebSocketDisconnect)],
      lock = None, tasks = [Finished (Raise WebSocketDisconnect)]\<rparr> \<and>
   send_calls (log_since
      (exec st_start [Start Websocket, Resume 0 Done, Resume 0 (Raised WebSocketDisconnect)])
      (exec st_start [Start Websocket, Resume 0 Done, Resume 0 (Raised WebSocketDisconnect),
                      Start (DeletePlayer ''p1'')])) = [0] \<and>
   active_connections
      (exec st_start [Start Websocket, Resume 0 Done, Resume 0 (Raised WebSocketDisconnect),
                      Start (DeletePlayer ''p1''), Resume 1 (Raised WebSocketDisconnect)]) = [] \<and>
   active_connections
      (exec st_start [Start Websocket, Resume 0 Done, Resume 0 (Raised WebSocketDisconnect),
                      Start (DeletePlayer ''p1''), Resume 1 Done]) = [0] \<and>
   delivered (trace
      (exec st_start [Start Websocket, Resume 0 Done, Resume 0 (Raised WebSocketDisconnect),
                      Start (DeletePlayer ''p1''), Resume 1 Done])) 0 = [msg_deleted]"
  by (simp add: run_defs example_defs log_since_def)

subsection \<open>C6: not found, or commit and then one broadcast\<close>




subsection \<open>C7: disconnecting a handle that is not registered\<close>

text \<open>
  C7. In every state the service reaches from its start, whatever the table, the requests
  and the order in which the pending calls complete, and for every handle \<open>w\<close>:
  \<^item> the registry holds no handle twice;
  \<^item> \<open>disconnect\<close> raises nothing: it returns, or it waits for the lock;
  \<^item> when \<open>w\<close> is not in the registry, \<open>disconnect\<close> leaves the state as it was;
  \<^item> when the lock is free, \<open>disconnect\<close> returns, and the registry it leaves is the one
    before without \<open>w\<close>, the other handles in their order;
  \<^item> when the lock is held, \<open>disconnect\<close> waits and the state is as it was;
  \<^item> disconnecting \<open>w\<close> again, in the state the first call leaves, ends as the first call
    did and in that same state: twice is once.
\<close>

theorem disconnect_idempotent:
  fixes rows :: "Player list" and sched :: "action list" and w :: WebSocket
  defines "s \<equiv> exec (initial rows) sched"
  shows "distinct (active_connections s) \<and>
     (fst (disconnect s w) = Return () \<or> fst (disconnect s w) = Stall) \<and>
     (w \<notin> set (active_connections s) \<longrightarrow> snd (disconnect s w) = s) \<and>
     (lock s = None \<longrightarrow>
        fst (disconnect s w) = Return () \<and>
        active_connections (snd (disconnect s w)) = filter (\<lambda>c. c \<noteq> w) (active_connections s) \<and>
        w \<notin> set (active_connections (snd (disconnect s w)))) \<and>
     (lock s \<noteq> None \<longrightarrow> disconnect s w = (Stall, s)) \<and>
     disconnect (snd (disconnect s w)) w = disconnect s w"
proof -
  have "consistent s"
    unfolding s_def by (intro consistent_exec consistent_initial)
  then have d: "distinct (active_connections s)"
    by (simp add: consistent_def)
  have r1: "remove1 w (active_connections s) = filter (\<lambda>c. c \<noteq> w) (active_connections s)"
    using d by (simp add: distinct_remove1_removeAll removeAll_filter_not_eq) metis
  have absent: "filter (\<lambda>c. c \<noteq> w) (active_connections s) = active_connections s"
    if "w \<notin> set (active_connections s)"
    using that by (induction "active_connections s") (auto simp: filter_id_conv)
  show ?thesis
    using d r1 absent by (auto simp: disconnect_def)
qed

theorem disconnect_idempotent_witness:
  "lock (exec (initial [kohli, messi]) two_listeners) = None \<and>
   active_connections (exec (initial [kohli, messi]) two_listeners) = [0, 1] \<and>
   active_connections (snd (disconnect (exec (initial [kohli, messi]) two_listeners) 0)) = [1] \<and>
   disconnect (snd (disconnect (exec (initial [kohli, messi]) two_listeners) 0)) 0 =
     disconnect (exec (initial [kohli, messi]) two_listeners) 0 \<and>
   5 \<notin> set (active_connections (exec (initial [kohli, messi]) two_listeners)) \<and>
   disconnect (exec (initial [kohli, messi]) two_listeners) 5 =
     (Return (), exec (initial [kohli, messi]) two_listeners) \<and>
   lock (exec (initial [kohli, messi]) (two_listeners @ [Start (DeletePlayer ''p1'')])) \<noteq> None \<and>
   disconnect (exec (initial [kohli, messi]) (two_listeners @ [Start (DeletePlayer ''p1'')])) 0 =
     (Stall, exec (initial [kohli, messi]) (two_listeners @ [Start (DeletePlayer ''p1'')]))"
proof -
  let ?s = "exec (initial [kohli, messi]) two_listeners"
  let ?b = "exec (initial [kohli, messi]) (two_listeners @ [Start (DeletePlayer ''p1'')])"
  have h: "lock ?s = None" "active_connections ?s = [0, 1]" "lock ?b \<noteq> None"
    by (simp_all add: run_defs example_defs)
  from disconnect_idempotent [where rows = "[kohli, messi]" and sched = two_listeners and w = 0]
    disconnect_idempotent [where rows = "[kohli, messi]" and sched = two_listeners and w = 5]
    disconnect_idempotent [where rows = "[kohli, messi]"
      and sched = "two_listeners @ [Start (DeletePlayer ''p1'')]" and w = 0]
  show ?thesis
    using h by (simp add: prod_eq_iff del: exec.simps step.simps)
qed

subsection \<open>C8: a send that does not complete\<close>

text \<open>
  C8, as the claim states it, fails: \<open>broadcast\<close> awaits each send in turn, with no
  deadline, and holds the lock meanwhile. On the example two websockets are listening, and
  the send of a deletion to websocket 0 does not complete. Whatever happens next,
  \<^verbatim>\<open>send_json\<close> is not called on websocket 1 with the event; an update of another player
  commits and then waits in \<open>broadcast\<close> for the lock, a new websocket waits in \<open>connect\<close>,
  and websocket 1, which closes, waits in \<open>disconnect\<close>.
\<close>

theorem stalled_send_blocks_counterexample:
  "tasks (exec st_start (two_listeners @ [Start (DeletePlayer ''p1'')])) ! 2 =
     AwaitSend msg_deleted (JObj [(''ok'', JBool True)]) 0 [1] [] \<and>
   tasks (exec st_start (two_listeners @
      [Start (DeletePlayer ''p1''), Start (PatchStats ''p2'' new_stats), Resume 3 Done,
       Start Websocket, Resume 4 Done, Resume 1 (Raised WebSocketDisconnect), Resume 2 Stalled])) =
     [AwaitReceive, WaitDisconnect,
      AwaitSend msg_deleted (JObj [(''ok'', JBool True)]) 0 [1] [],
      WaitBroadcast
        (JObj [(''type'', JStr ''stats_updated''),
               (''player'', player_to_dict (messi\<lparr>matches := 261, runs_or_goals := 12100,
                                                   average := 59.5\<rparr>))])
        (player_to_dict (messi\<lparr>matches := 261, runs_or_goals := 12100, average := 59.5\<rparr>)),
      WaitConnect] \<and>
   calls_to (trace (exec st_start (two_listeners @
      [Start (DeletePlayer ''p1''), Start (PatchStats ''p2'' new_stats), Resume 3 Done,
       Start Websocket, Resume 4 Done, Resume 1 (Raised WebSocketDisconnect), Resume 2 Stalled]))) 1 =
     [init_message [kohli, messi]] \<and>
   players (exec st_start (two_listeners @
      [Start (DeletePlayer ''p1''), Start (PatchStats ''p2'' new_stats), Resume 3 Done,
       Start Websocket, Resume 4 Done, Resume 1 (Raised WebSocketDisconnect), Resume 2 Stalled])) =
     [messi\<lparr>matches := 261, runs_or_goals := 12100, average := 59.5\<rparr>]"
  by (simp add: run_defs example_defs)

text \<open>
  C8, amended. A pass of \<open>broadcast\<close> awaits \<^verbatim>\<open>send_json\<close> for one listener after the other,
  with no deadline, and holds the lock of the manager meanwhile. Take any state the
  service reaches in which a pass awaits the send to a listener, and let the service go on
  in any way in which that send does not complete. Then the pass still awaits that send
  and holds the lock; the registry is as it was; \<^verbatim>\<open>send_json\<close> has been called on no
  websocket, for this event or any other message; and no route that changes the table and
  no websocket endpoint has returned that had not returned before.
\<close>

theorem stalled_send_blocks_pass:
  fixes rows :: "Player list" and sched sched' :: "action list" and t :: tid
  defines "s \<equiv> exec (initial rows) sched"
    and "s' \<equiv> exec (exec (initial rows) sched) sched'"
  assumes pending: "t < length (tasks s)"
      "tasks s ! t = AwaitSend message ret conn conns to_remove"
    and stalled: "\<forall>r. Resume t r \<in> set sched' \<longrightarrow> r = Stalled"
  shows "tasks s' ! t = AwaitSend message ret conn conns to_remove \<and>
     lock s' = Some t \<and>
     active_connections s' = active_connections s \<and>
     send_calls (log_since s s') = [] \<and>
     (\<forall>t' < length (tasks s'). returned (tasks s' ! t') \<longrightarrow>
        t' < length (tasks s) \<and> returned (tasks s ! t'))"
proof -
  have c: "consistent s"
    unfolding s_def by (intro consistent_exec consistent_initial)
  have "sending (tasks s ! t)"
    using pending(2) by simp
  from pending_exec [OF c pending(1) this stalled] show ?thesis
    using pending(2) by (simp add: s'_def s_def)
qed

theorem stalled_send_blocks_pass_witness:
  "2 < length (tasks (exec (initial [kohli, messi]) (two_listeners @ [Start (DeletePlayer ''p1'')]))) \<and>
   tasks (exec (initial [kohli, messi]) (two_listeners @ [Start (DeletePlayer ''p1'')])) ! 2 =
     AwaitSend msg_deleted (JObj [(''ok'', JBool True)]) 0 [1] [] \<and>
   filter (\<lambda>a. case a of Resume t r \<Rightarrow> t = 2 | Start req \<Rightarrow> False)
     [Start (PatchStats ''p2'' new_stats), Resume 3 Done, Start Websocket,
      Resume 4 Done, Resume 1 (Raised WebSocketDisconnect), Resume 2 Stalled] = [Resume 2 Stalled] \<and>
   lock (exec (exec (initial [kohli, messi]) (two_listeners @ [Start (DeletePlayer ''p1'')]))
      [Start (PatchStats ''p2'' new_stats), Resume 3 Done, Start Websocket,
       Resume 4 Done, Resume 1 (Raised WebSocketDisconnect), Resume 2 Stalled]) = Some 2 \<and>
   active_connections (exec (exec (initial [kohli, messi]) (two_listeners @ [Start (DeletePlayer ''p1'')]))
      [Start (PatchStats ''p2'' new_stats), Resume 3 Done, Start Websocket,
       Resume 4 Done, Resume 1 (Raised WebSocketDisconnect), Resume 2 Stalled]) = [0, 1] \<and>
   send_calls (log_since
     (exec (initial [kohli, messi]) (two_listeners @ [Start (DeletePlayer ''p1'')]))
     (exec (exec (initial [kohli, messi]) (two_listeners @ [Start (DeletePlayer ''p1'')]))
      [Start (PatchStats ''p2'' new_stats), Resume 3 Done, Start Websocket,
       Resume 4 Done, Resume 1 (Raised WebSocketDisconnect), Resume 2 Stalled])) = []"
proof -
  let ?s = "exec (initial [kohli, messi]) (two_listeners @ [Start (DeletePlayer ''p1'')])"
  let ?sched = "[Start (PatchStats ''p2'' new_stats), Resume 3 Done, Start Websocket,
       Resume 4 Done, Resume 1 (Raised WebSocketDisconnect), Resume 2 Stalled]"
  have h1: "2 < length (tasks ?s)"
    and h2: "tasks ?s ! 2 = AwaitSend msg_deleted (JObj [(''ok'', JBool True)]) 0 [1] []"
    and reg: "active_connections ?s = [0, 1]"
    by (simp_all add: run_defs example_defs)
  have h3: "\<forall>r. Resume 2 r \<in> set ?sched \<longrightarrow> r = Stalled"
    by simp
  from stalled_send_blocks_pass [OF h1 h2 h3] show ?thesis
    using h1 h2 reg by (simp del: exec.simps step.simps)
qed

subsection \<open>C9: what update_stats changes\<close>




subsection \<open>C10: the keys create_player needs\<close>




end
